theory Spec2Isabelle
  imports Main "HOL-Library.Word" "HOL-Library.Monad_Syntax"
begin

section \<open>Machine types shared by the packages\<close>

text \<open>
  Go's \<open>int\<close> and \<open>int64\<close> on the 64-bit targets are 64-bit two's complement
  integers whose arithmetic wraps around; \<open>time.Duration\<close> is an \<open>int64\<close> count of
  nanoseconds. Signed comparisons read a word through \<open>sint\<close>.
\<close>

type_synonym go_int = "64 word"
type_synonym Duration = "64 word"

section \<open>redis\_lock/retry.go\<close>

text \<open>
  \<^verbatim>\<open>
  type FixIntervalRetry struct {
      Interval time.Duration
      Max      int
      cnt      int
  }
  func (f *FixIntervalRetry) Next() (time.Duration, bool) {
      f.cnt++
      return f.Interval, f.cnt <= f.Max
  }
  \<close>
  The receiver is mutated in place; the model returns the pair of results together with
  the updated receiver.
\<close>

record FixIntervalRetry =
  Interval :: Duration
  Max :: go_int
  cnt :: go_int

definition Next :: "FixIntervalRetry \<Rightarrow> (Duration \<times> bool) \<times> FixIntervalRetry" where
  "Next f =
     (let f' = f\<lparr>cnt := cnt f + 1\<rparr>
      in ((Interval f', sint (cnt f') \<le> sint (Max f')), f'))"

text \<open>The receiver after \<open>n\<close> consecutive calls of \<open>Next\<close>.\<close>

fun Next_calls :: "nat \<Rightarrow> FixIntervalRetry \<Rightarrow> FixIntervalRetry" where
  "Next_calls 0 f = f"
| "Next_calls (Suc n) f = Next_calls n (snd (Next f))"

section \<open>The key-value store behind redis\_lock\<close>

text \<open>
  The lock record lives in Redis: a string value under a key, with a remaining time to
  live in milliseconds (\<open>None\<close>: no expiry). The three commands the acquire script
  issues follow the Redis command reference: \<open>GET\<close> reads the value; \<open>SET k v PX n\<close>
  stores the value with an expiry of \<open>n\<close> milliseconds and is refused for \<open>n \<le> 0\<close>;
  \<open>EXPIRE k n\<close> sets the expiry of an existing key to \<open>n\<close> seconds and deletes the key
  for \<open>n \<le> 0\<close>. A numeric argument arrives as text; \<open>None\<close> stands for a text that
  is not an integer literal, which both commands refuse. (Redis also refuses an expiry
  time that overflows 64 bits; that check is left out, no number of seconds of a
  \<open>Duration\<close> comes near it.)
\<close>

record entry =
  token :: string
  pttl :: "int option"

type_synonym store = "string \<rightharpoonup> entry"

datatype error =
    DeadlineExceeded
  | Canceled
  | RedisNil
  | ErrLockNotHold
  | FailToGetLock
  | StoreErr string
  | LockHeld
  | LastRetryError error
  | RetriesExhausted error

definition redis_get :: "store \<Rightarrow> string \<Rightarrow> string option" where
  "redis_get s k = map_option token (s k)"

definition redis_set_px :: "store \<Rightarrow> string \<Rightarrow> string \<Rightarrow> int option \<Rightarrow> (error + string) \<times> store" where
  "redis_set_px s k v a =
     (case a of
        None \<Rightarrow> (Inl (StoreErr ''ERR value is not an integer or out of range''), s)
      | Some n \<Rightarrow>
          if n \<le> 0 then (Inl (StoreErr ''ERR invalid expire time in set command''), s)
          else (Inr ''OK'', s(k \<mapsto> \<lparr>token = v, pttl = Some n\<rparr>)))"

definition redis_expire :: "store \<Rightarrow> string \<Rightarrow> int option \<Rightarrow> (error + int) \<times> store" where
  "redis_expire s k a =
     (case a of
        None \<Rightarrow> (Inl (StoreErr ''ERR value is not an integer or out of range''), s)
      | Some n \<Rightarrow>
          (case s k of
             None \<Rightarrow> (Inr 0, s)
           | Some e \<Rightarrow>
               if n \<le> 0 then (Inr 1, s(k := None))
               else (Inr 1, s(k \<mapsto> e\<lparr>pttl := Some (n * 1000)\<rparr>))))"

text \<open>The store after \<open>dt\<close> milliseconds: records whose time to live has run out are gone.\<close>

definition elapse :: "int \<Rightarrow> store \<Rightarrow> store" where
  "elapse dt s =
     (\<lambda>k. case s k of
             None \<Rightarrow> None
           | Some e \<Rightarrow>
               (case pttl e of
                  None \<Rightarrow> Some e
                | Some t \<Rightarrow> if t \<le> dt then None else Some (e\<lparr>pttl := Some (t - dt)\<rparr>)))"

section \<open>redis\_lock/lua/lock.lua\<close>

text \<open>
  \<^verbatim>\<open>
  local val = redis.call("get", KEYS[1])
  if not val then
      return redis.call('set', KEYS[1], ARGV[1], 'PX', ARGV[2])
  elseif val == ARGV[1] then
      redis.call('expire', KEYS[1], ARGV[2])
      return  "OK"
  else
      return ""
  end
  \<close>
  The script runs atomically; an error raised by \<open>redis.call\<close> aborts it and becomes the
  error of the evaluation. The result is the reply text together with the store after
  the script.
\<close>

definition lock_lua :: "store \<Rightarrow> string \<Rightarrow> string \<Rightarrow> int option \<Rightarrow> (error + string) \<times> store" where
  "lock_lua s k v a =
     (case redis_get s k of
        None \<Rightarrow> redis_set_px s k v a
      | Some val \<Rightarrow>
          if val = v then
            (case redis_expire s k a of
               (Inl e, s') \<Rightarrow> (Inl e, s')
             | (Inr _, s') \<Rightarrow> (Inr ''OK'', s'))
          else (Inr [], s))"

text \<open>
  Modelled from the spec: \<open>lua/unlock.lua\<close> is embedded by lock.go but is not among the
  sources. The spec's atomic release script: compare the stored value to the token; on a
  match \<open>DEL\<close> the key and return the count deleted; on a mismatch return 0 and change
  nothing.
\<close>

definition unlock_lua :: "store \<Rightarrow> string \<Rightarrow> string \<Rightarrow> int \<times> store" where
  "unlock_lua s k v = (if redis_get s k = Some v then (1, s(k := None)) else (0, s))"

section \<open>redis\_lock/lock.go\<close>

text \<open>
  A store round-trip, as the environment decides it: the store runs the script and the
  reply arrives (\<open>Reached\<close>); the call fails with an error before the store has run
  the script (\<open>Failed\<close>: the context's deadline, a cancelled context, a network
  failure); or the store runs the script and the call fails with an error all the same,
  the reply being late or lost (\<open>Lost\<close>).
\<close>

datatype round_trip = Reached | Failed error | Lost error

text \<open>
  A channel of \<open>struct{}\<close> as far as a receiver can tell: closed or not, and how many
  values wait to be received. A channel variable that was never made is \<open>nil\<close>
  (\<open>None\<close>): a receive from it blocks for ever.
\<close>

record chan =
  closed :: bool
  pending :: nat

definition recv_ready :: "chan option \<Rightarrow> bool" where
  "recv_ready c = (case c of None \<Rightarrow> False | Some ch \<Rightarrow> closed ch \<or> 0 < pending ch)"

text \<open>
  \<^verbatim>\<open>
  type Lock struct {
      client  redis.Cmdable
      key     string
      val     any
      expired time.Duration
      unlock  chan struct{}
  }
  func newLock(c redis.Cmdable, k string, v any, d time.Duration) *Lock {
      return &Lock{client: c, key: k, val: v, expired: d}
  }
  \<close>
  The client is the store the operations are run against, passed to each of them. The
  composite literal leaves \<open>unlock\<close> at its zero value, the nil channel.
\<close>

record Lock =
  key :: string
  val :: string
  expired :: Duration
  unlock :: "chan option"

definition newLock :: "string \<Rightarrow> string \<Rightarrow> Duration \<Rightarrow> Lock" where
  "newLock k v d = \<lparr>key = k, val = v, expired = d, unlock = None\<rparr>"

definition DelSuccess :: int where
  "DelSuccess = 1"

definition NotExistKey :: int where
  "NotExistKey = 1"

text \<open>
  \<open>Eval(ctx, luaUnlock, []string{c.key}, c.val).Int64()\<close>: go-redis returns
  \<open>(0, err)\<close> when the command carries an error and the integer reply otherwise.
\<close>

definition eval_unlock :: "round_trip \<Rightarrow> store \<Rightarrow> string \<Rightarrow> string \<Rightarrow> (int \<times> error option) \<times> store" where
  "eval_unlock t s k v =
     (case t of
        Failed e \<Rightarrow> ((0, Some e), s)
      | Lost e \<Rightarrow> (let (n, s') = unlock_lua s k v in ((0, Some e), s'))
      | Reached \<Rightarrow> (let (n, s') = unlock_lua s k v in ((n, None), s')))"

text \<open>
  \<^verbatim>\<open>
  func (c *Lock) UnLock(ctx context.Context) error {
      res, err := c.client.Eval(ctx, luaUnlock, []string{c.key}, c.val).Int64()
      if err == redis.Nil || res != DelSuccess {
          return ErrLockNotHold
      }
      if err != nil {
          return err
      }
      return nil
  }
  \<close>
  \<open>UnLock_result\<close> is the body after the round-trip; the returned error is \<open>None\<close>
  for \<open>nil\<close>.
\<close>

definition UnLock_result :: "int \<times> error option \<Rightarrow> error option" where
  "UnLock_result r =
     (case r of (res, err) \<Rightarrow>
        if err = Some RedisNil \<or> res \<noteq> DelSuccess then Some ErrLockNotHold
        else if err \<noteq> None then err
        else None)"

definition UnLock :: "Lock \<Rightarrow> round_trip \<Rightarrow> store \<Rightarrow> error option \<times> store" where
  "UnLock c t s = (let (r, s') = eval_unlock t s (key c) (val c) in (UnLock_result r, s'))"

text \<open>
  \<^verbatim>\<open>
  func (c *Lock) Refresh(ctx context.Context) error {
      res, err := c.client.Eval(ctx, luaRefresh, []string{c.key}, c.val, c.expired).Int64()
      if err != nil {
          return err
      }
      if res != NotExistKey {
          return ErrLockNotHold
      }
      return nil
  }
  \<close>
  \<open>lua/refresh.lua\<close> is not among the sources; the pair returned by \<open>Int64()\<close> is the
  input of the model.
\<close>

definition Refresh_result :: "int \<times> error option \<Rightarrow> error option" where
  "Refresh_result r =
     (case r of (res, err) \<Rightarrow>
        if err \<noteq> None then err
        else if res \<noteq> NotExistKey then Some ErrLockNotHold
        else None)"

text \<open>
  \<^verbatim>\<open>
  func (c *Lock) AutoRefresh(interval, timeout time.Duration) error {
      ticker := time.NewTicker(interval)
      defer func() { ticker.Stop() }()
      ch := make(chan struct{}, 1)
      for {
          select {
          case <-ticker.C:
              ctx, cancelFunc := context.WithTimeout(context.Background(), timeout)
              err := c.Refresh(ctx)
              cancelFunc()
              if err == context.DeadlineExceeded {
                  select {
                  case ch <- struct{}{}:
                  default:
                  }
                  continue
              }
              if err != nil {
                  return err
              }
          case <-ch:
              (the same body)
          case <-c.unlock:
              return nil
          }
      }
  }
  \<close>
  Each turn of the loop is a \<open>select\<close> over the ticker, the
  one-slot channel \<open>ch\<close> and \<open>c.unlock\<close>. The schedule lists, turn by turn, the case
  the \<open>select\<close> takes and, for the two refreshing cases, what the round-trip of
  \<open>Refresh\<close> returns. \<open>ch\<close> is full or empty; the refresh calls are counted.
  The outcome is \<open>Returned err n\<close> when the loop returns \<open>err\<close> after \<open>n\<close> refresh
  calls, \<open>Running n\<close> when the schedule ends with the loop still waiting, and
  \<open>NotEnabled\<close> when the schedule names a case whose channel is not ready, which
  \<open>select\<close> cannot take.
\<close>

datatype sel = TickerC "int \<times> error option" | Ch "int \<times> error option" | UnlockC

datatype watchdog = Returned "error option" nat | Running nat | NotEnabled

fun AutoRefresh :: "Lock \<Rightarrow> sel list \<Rightarrow> bool \<Rightarrow> nat \<Rightarrow> watchdog" where
  "AutoRefresh c [] ch n = Running n"
| "AutoRefresh c (TickerC r # es) ch n =
     (let err = Refresh_result r in
      if err = Some DeadlineExceeded then AutoRefresh c es True (Suc n)
      else if err \<noteq> None then Returned err (Suc n)
      else AutoRefresh c es ch (Suc n))"
| "AutoRefresh c (Ch r # es) ch n =
     (if \<not> ch then NotEnabled
      else let err = Refresh_result r in
        if err = Some DeadlineExceeded then AutoRefresh c es True (Suc n)
        else if err \<noteq> None then Returned err (Suc n)
        else AutoRefresh c es False (Suc n))"
| "AutoRefresh c (UnlockC # es) ch n =
     (if recv_ready (unlock c) then Returned None n else NotEnabled)"

section \<open>redis\_lock/client.go\<close>

text \<open>
  \<open>float64\<close> arithmetic. A value is a ratio, numerator over a positive denominator;
  every operation gives the exact result rounded to the nearest binary64 value, ties to
  the even significand (53 bits; the values here stay in the normal range).
  \<open>ilog2 n\<close> is the position of the highest bit of \<open>n\<close>, \<open>flog2 p q\<close> the binary
  exponent of \<open>p / q\<close>, and \<open>rne p q\<close> the integer nearest to \<open>p / q\<close>, ties to
  even.
\<close>

type_synonym ratio = "int \<times> nat"

fun ilog2 :: "nat \<Rightarrow> nat" where
  "ilog2 n = (if n < 2 then 0 else Suc (ilog2 (n div 2)))"

declare ilog2.simps [simp del]

definition flog2 :: "nat \<Rightarrow> nat \<Rightarrow> int" where
  "flog2 p q =
     (let g = int (ilog2 p) - int (ilog2 q)
      in if (if 0 \<le> g then q * 2 ^ nat g \<le> p else q \<le> p * 2 ^ nat (- g)) then g else g - 1)"

definition rne :: "nat \<Rightarrow> nat \<Rightarrow> nat" where
  "rne p q =
     (let f = p div q; r = p mod q
      in if 2 * r < q then f else if q < 2 * r then Suc f else if even f then f else Suc f)"

definition RN :: "ratio \<Rightarrow> ratio" where
  "RN x =
     (case x of (p, q) \<Rightarrow>
        if p = 0 then (0, 1)
        else
          (let n = nat \<bar>p\<bar>; k = 52 - flog2 n q
           in if 0 \<le> k then (sgn p * int (rne (n * 2 ^ nat k) q), 2 ^ nat k)
              else (sgn p * int (rne n (q * 2 ^ nat (- k)) * 2 ^ nat (- k)), 1)))"

definition float64 :: "int \<Rightarrow> ratio" where
  "float64 n = RN (n, 1)"

definition fadd :: "ratio \<Rightarrow> ratio \<Rightarrow> ratio" where
  "fadd x y = (case x of (a, b) \<Rightarrow> case y of (c, d) \<Rightarrow> RN (a * int d + c * int b, b * d))"

definition fdiv :: "ratio \<Rightarrow> ratio \<Rightarrow> ratio" where
  "fdiv x y = (case x of (a, b) \<Rightarrow> case y of (c, d) \<Rightarrow> RN (sgn c * a * int d, b * nat \<bar>c\<bar>))"

text \<open>
  \<open>Duration.Seconds\<close> of Go's \<open>time\<close> package, which \<open>Client.Lock\<close> calls:
  \<^verbatim>\<open>
  func (d Duration) Seconds() float64 {
      sec := d / Second
      nsec := d % Second
      return float64(sec) + float64(nsec)/1e9
  }
  \<close>
  Go's \<open>/\<close> truncates and \<open>%\<close> takes the sign of the dividend.
\<close>

definition Seconds :: "Duration \<Rightarrow> ratio" where
  "Seconds d =
     (let sec = sgn (sint d) * (\<bar>sint d\<bar> div 1000000000);
          nsec = sgn (sint d) * (\<bar>sint d\<bar> mod 1000000000)
      in fadd (float64 sec) (fdiv (float64 nsec) (float64 1000000000)))"

text \<open>
  go-redis writes a \<open>float64\<close> argument in the shortest decimal form without an
  exponent: a value that is a whole number reaches the script as that integer literal,
  any other as a text with a fraction, which is not an integer literal.
\<close>

definition Seconds_arg :: "Duration \<Rightarrow> int option" where
  "Seconds_arg d =
     (case Seconds d of (p, q) \<Rightarrow> if p mod int q = 0 then Some (p div int q) else None)"

text \<open>
  \<open>Eval(tCtx, luaLock, []string{key}, val, expiration.Seconds()).Result()\<close>: the reply
  (\<open>None\<close> for a nil interface) and the error.
\<close>

definition eval_lock :: "round_trip \<Rightarrow> store \<Rightarrow> string \<Rightarrow> string \<Rightarrow> int option \<Rightarrow> (string option \<times> error option) \<times> store" where
  "eval_lock t s k v a =
     (case t of
        Failed e \<Rightarrow> ((None, Some e), s)
      | Lost e \<Rightarrow> ((None, Some e), snd (lock_lua s k v a))
      | Reached \<Rightarrow>
          (case lock_lua s k v a of
             (Inl e, s') \<Rightarrow> ((None, Some e), s')
           | (Inr r, s') \<Rightarrow> ((Some r, None), s')))"

text \<open>
  \<^verbatim>\<open>
  func (c *Client) Lock(ctx context.Context, key string, val string,
          expiration time.Duration, retry RetryStrategy, timeout time.Duration) (*Lock, error) {
      var timer *time.Timer
      defer func() { if timer != nil { timer.Stop() } }()
      for {
          tCtx, cancelFunc := context.WithTimeout(ctx, timeout)
          res, err := c.client.Eval(tCtx, luaLock, []string{key}, val, expiration.Seconds()).Result()
          cancelFunc()
          if err != nil && err == context.DeadlineExceeded {
              return nil, err
          }
          if res == "OK" {
              return newLock(c.client, key, val, expiration), nil
          }
          interval, ok := retry.Next()
          if !ok {
              if err == nil {
                  err = fmt.Errorf(...)                 // LockHeld
              } else {
                  err = fmt.Errorf("...: %w", err)      // LastRetryError
              }
              return nil, fmt.Errorf("..., %w", err)    // RetriesExhausted
          }
          if timer == nil { timer = time.NewTimer(interval) } else { timer.Reset(interval) }
          select {
          case <-timer.C:
          case <-ctx.Done():
              return nil, ctx.Err()
          }
      }
  }
  \<close>
  The environment of one turn of the loop: what the other clients and the passing of
  time do to the store before the attempt, how the round-trip goes, and which case the
  \<open>select\<close> after it takes (the timer, or the caller's context being done with its
  \<open>ctx.Err()\<close>). The retry strategy is any state with a \<open>Next\<close> operation. The
  timer only decides when its case of the \<open>select\<close> is ready. The result holds the
  value returned (\<open>None\<close> while the loop has not returned within the schedule), the
  store, the retry state and the number of attempts made.
\<close>

datatype wait_ev = TimerFired | CtxDone error

record turn =
  world :: "store \<Rightarrow> store"
  trip :: round_trip
  wait :: wait_ev

record 'r lock_run =
  returned :: "(error + Lock) option"
  store_after :: store
  retry_after :: 'r
  attempts :: nat

fun Client_Lock ::
  "('r \<Rightarrow> (Duration \<times> bool) \<times> 'r) \<Rightarrow> string \<Rightarrow> string \<Rightarrow> Duration \<Rightarrow> turn list \<Rightarrow>
   store \<Rightarrow> 'r \<Rightarrow> nat \<Rightarrow> 'r lock_run" where
  "Client_Lock nxt k v expiration [] s r n =
     \<lparr>returned = None, store_after = s, retry_after = r, attempts = n\<rparr>"
| "Client_Lock nxt k v expiration (e # es) s r n =
     (case eval_lock (trip e) (world e s) k v (Seconds_arg expiration) of
        ((res, err), s') \<Rightarrow>
          if err \<noteq> None \<and> err = Some DeadlineExceeded then
            \<lparr>returned = Some (Inl DeadlineExceeded), store_after = s', retry_after = r,
             attempts = Suc n\<rparr>
          else if res = Some ''OK'' then
            \<lparr>returned = Some (Inr (newLock k v expiration)), store_after = s',
             retry_after = r, attempts = Suc n\<rparr>
          else
            (case nxt r of
               ((interval, ok), r') \<Rightarrow>
                 if \<not> ok then
                   \<lparr>returned = Some (Inl (RetriesExhausted
                        (case err of None \<Rightarrow> LockHeld | Some e' \<Rightarrow> LastRetryError e'))),
                    store_after = s', retry_after = r', attempts = Suc n\<rparr>
                 else
                   (case wait e of
                      TimerFired \<Rightarrow> Client_Lock nxt k v expiration es s' r' (Suc n)
                    | CtxDone ce \<Rightarrow>
                        \<lparr>returned = Some (Inl ce), store_after = s', retry_after = r',
                         attempts = Suc n\<rparr>)))"

section \<open>local\_cache: the expiring in-process cache\<close>

text \<open>
  \<^verbatim>\<open>
  type Item struct {
      Obj        any
      ExpireTime int64
  }
  \<close>
  \<open>ExpireTime\<close> is a Unix time in seconds; it is only ever compared, so it is read
  as the integer it denotes. The clock reading \<open>time.Now().Unix()\<close> is the parameter
  \<open>now\<close> of every operation that consults it.
\<close>

record 'a Item =
  Obj :: 'a
  ExpireTime :: int

definition Expired :: "'a Item \<Rightarrow> int \<Rightarrow> bool" where
  "Expired i now = (if ExpireTime i = 0 then False else now > ExpireTime i)"

text \<open>
  \<open>cache.Get\<close>: the \<open>any\<close> result is \<open>None\<close> for Go's \<open>nil\<close>. The map is read
  under the read lock and never written.
\<close>

definition Get :: "(string \<rightharpoonup> 'a Item) \<Rightarrow> string \<Rightarrow> int \<Rightarrow> 'a option \<times> bool" where
  "Get items k now =
     (case items k of
        None \<Rightarrow> (None, False)
      | Some item \<Rightarrow>
          if ExpireTime item > 0 then
            (if now > ExpireTime item then (None, False) else (Some (Obj item), True))
          else (Some (Obj item), True))"

text \<open>
  \<^verbatim>\<open>
  func (c *cache) Set(k string, v any, d time.Duration) {
      if d == DefaultExpire {
          d = c.defaultExpire
      }
      var e int64
      if d > 0 {
          e = time.Now().Add(d).Unix()
      }
      c.items[k] = Item{Obj: v, ExpireTime: e}
  }
  \<close>
  \<open>now_ns\<close> is the clock reading \<open>time.Now()\<close> in nanoseconds since the Unix epoch;
  \<open>Unix()\<close> rounds down to whole seconds.
\<close>

definition NoExpire :: Duration where
  "NoExpire = - 1"

definition DefaultExpire :: Duration where
  "DefaultExpire = 0"

definition Set :: "Duration \<Rightarrow> (string \<rightharpoonup> 'a Item) \<Rightarrow> string \<Rightarrow> 'a \<Rightarrow> Duration \<Rightarrow> int \<Rightarrow>
    (string \<rightharpoonup> 'a Item)" where
  "Set defaultExpire items k v d now_ns =
     (let d' = (if d = DefaultExpire then defaultExpire else d);
          e = (if sint d' > 0 then (now_ns + sint d') div 1000000000 else 0)
      in items(k \<mapsto> \<lparr>Obj = v, ExpireTime = e\<rparr>))"

definition SetNoExpire :: "Duration \<Rightarrow> (string \<rightharpoonup> 'a Item) \<Rightarrow> string \<Rightarrow> 'a \<Rightarrow> int \<Rightarrow>
    (string \<rightharpoonup> 'a Item)" where
  "SetNoExpire defaultExpire items k v now_ns = Set defaultExpire items k v NoExpire now_ns"

text \<open>
  \<open>cache.DeleteExpired\<close>, the janitor's sweep, restricted to its effect on the map
  (the eviction callbacks do not touch the map).
\<close>

definition DeleteExpired :: "(string \<rightharpoonup> 'a Item) \<Rightarrow> int \<Rightarrow> (string \<rightharpoonup> 'a Item)" where
  "DeleteExpired items now =
     (\<lambda>k. case items k of
             None \<Rightarrow> None
           | Some item \<Rightarrow>
               if ExpireTime item > 0 \<and> now > ExpireTime item then None else Some item)"

section \<open>lru/lru.go\<close>

text \<open>
  \<^verbatim>\<open>
  type node struct {
      key   int
      value int
      prev  *node
      next  *node
  }
  type LRUCache struct {
      lock      sync.RWMutex
      onEvicted func(node)
      capacity  int
      cache     map[int]*node
      head      *node
      tail      *node
  }
  \<close>
  The nodes are shared between the map and the doubly linked list and are mutated through
  both, so they live in an explicit store: \<open>nodes\<close> maps the address of every node
  allocated so far to its contents, a pointer is an address (\<open>None\<close> for \<open>nil\<close>), and
  \<open>fresh\<close> is the address the next allocation returns. The operations are run one
  after the other, so the mutex has no effect and is left out, as is \<open>onEvicted\<close>, which
  no operation calls. An operation yields \<open>None\<close> where the Go code panics on a nil
  pointer.
\<close>

type_synonym addr = nat

record node =
  node_key :: go_int
  node_value :: go_int
  node_prev :: "addr option"
  node_next :: "addr option"

record LRUCache =
  capacity :: go_int
  cache :: "go_int \<rightharpoonup> addr"
  head :: "addr option"
  tail :: "addr option"
  nodes :: "addr \<rightharpoonup> node"
  fresh :: addr

definition DefaultCapacity :: go_int where
  "DefaultCapacity = 16"

definition Constructor :: "go_int \<Rightarrow> LRUCache" where
  "Constructor c =
     \<lparr>capacity = (if sint c \<le> 0 then DefaultCapacity else c), cache = Map.empty,
      head = None, tail = None, nodes = Map.empty, fresh = 0\<rparr>"

text \<open>
  \<^verbatim>\<open>
  func (this *LRUCache) remove(node *node) {
      if node.prev == nil {
          this.head = node.next
      } else {
          node.prev.next = node.next
      }
      if node.next == nil {
          this.tail = node.prev
      } else {
          node.next.prev = node.prev
      }
  }
  \<close>
  Every field is read from the store at the point where the code reads it.
\<close>

definition remove :: "LRUCache \<Rightarrow> addr \<Rightarrow> LRUCache option" where
  "remove this a = do {
     n \<leftarrow> nodes this a;
     this1 \<leftarrow> (case node_prev n of
                None \<Rightarrow> Some (this\<lparr>head := node_next n\<rparr>)
              | Some p \<Rightarrow> do {
                  pn \<leftarrow> nodes this p;
                  Some (this\<lparr>nodes := (nodes this)(p \<mapsto> pn\<lparr>node_next := node_next n\<rparr>)\<rparr>)
                });
     n1 \<leftarrow> nodes this1 a;
     (case node_next n1 of
        None \<Rightarrow> Some (this1\<lparr>tail := node_prev n1\<rparr>)
      | Some q \<Rightarrow> do {
          qn \<leftarrow> nodes this1 q;
          Some (this1\<lparr>nodes := (nodes this1)(q \<mapsto> qn\<lparr>node_prev := node_prev n1\<rparr>)\<rparr>)
        })
   }"

text \<open>
  \<^verbatim>\<open>
  func (this *LRUCache) addToHead(node *node) {
      node.prev = nil
      node.next = this.head
      if this.head != nil {
          this.head.prev = node
      }
      this.head = node
      if this.tail == nil {
          this.tail = node
      }
  }
  \<close>
\<close>

definition addToHead :: "LRUCache \<Rightarrow> addr \<Rightarrow> LRUCache option" where
  "addToHead this a = do {
     n \<leftarrow> nodes this a;
     let this1 = this\<lparr>nodes := (nodes this)(a \<mapsto> n\<lparr>node_prev := None, node_next := head this\<rparr>)\<rparr>;
     this2 \<leftarrow> (case head this1 of
                None \<Rightarrow> Some this1
              | Some h \<Rightarrow> do {
                  hn \<leftarrow> nodes this1 h;
                  Some (this1\<lparr>nodes := (nodes this1)(h \<mapsto> hn\<lparr>node_prev := Some a\<rparr>)\<rparr>)
                });
     let this3 = this2\<lparr>head := Some a\<rparr>;
     Some (if tail this3 = None then this3\<lparr>tail := Some a\<rparr> else this3)
   }"

text \<open>
  \<^verbatim>\<open>
  func (this *LRUCache) Get(key int) int {
      getNode, ok := this.cache[key]
      if ok {
          this.remove(getNode)
          this.addToHead(getNode)
          return getNode.value
      }
      return -1
  }
  \<close>
\<close>

definition LRU_Get :: "LRUCache \<Rightarrow> go_int \<Rightarrow> (go_int \<times> LRUCache) option" where
  "LRU_Get this k =
     (case cache this k of
        Some getNode \<Rightarrow> do {
          this1 \<leftarrow> remove this getNode;
          this2 \<leftarrow> addToHead this1 getNode;
          n \<leftarrow> nodes this2 getNode;
          Some (node_value n, this2)
        }
      | None \<Rightarrow> Some (- 1, this))"

text \<open>
  \<^verbatim>\<open>
  func (this *LRUCache) Put(key int, value int) {
      if nodeNew, ok := this.cache[key]; ok {
          nodeNew.value = value
          this.remove(nodeNew)
          this.addToHead(nodeNew)
      } else {
          nodeNew = &node{key: key, value: value, prev: nil, next: nil}
          if len(this.cache) == this.capacity {
              delete(this.cache, this.tail.key)
              this.remove(this.tail)
          }
          this.addToHead(nodeNew)
          this.cache[key] = nodeNew
      }
  }
  \<close>
  \<open>len(this.cache)\<close> is the number of keys of the map.
\<close>

definition Put :: "LRUCache \<Rightarrow> go_int \<Rightarrow> go_int \<Rightarrow> LRUCache option" where
  "Put this k v =
     (case cache this k of
        Some nodeNew \<Rightarrow> do {
          n \<leftarrow> nodes this nodeNew;
          let this1 = this\<lparr>nodes := (nodes this)(nodeNew \<mapsto> n\<lparr>node_value := v\<rparr>)\<rparr>;
          this2 \<leftarrow> remove this1 nodeNew;
          addToHead this2 nodeNew
        }
      | None \<Rightarrow> do {
          let nodeNew = fresh this;
          let this1 = this\<lparr>nodes := (nodes this)(nodeNew \<mapsto>
                        \<lparr>node_key = k, node_value = v, node_prev = None, node_next = None\<rparr>),
                      fresh := Suc (fresh this)\<rparr>;
          this2 \<leftarrow> (if int (card (dom (cache this1))) = sint (capacity this1) then do {
                       t \<leftarrow> tail this1;
                       tn \<leftarrow> nodes this1 t;
                       let this1' = this1\<lparr>cache := (cache this1)(node_key tn := None)\<rparr>;
                       t' \<leftarrow> tail this1';
                       remove this1' t'
                     } else Some this1);
          this3 \<leftarrow> addToHead this2 nodeNew;
          Some (this3\<lparr>cache := (cache this3)(k \<mapsto> nodeNew)\<rparr>)
        })"

text \<open>A sequence of operations on one cache, stopping at the first panic.\<close>

datatype lru_op = OpPut go_int go_int | OpGet go_int

definition lru_step :: "LRUCache \<Rightarrow> lru_op \<Rightarrow> LRUCache option" where
  "lru_step this op =
     (case op of
        OpPut k v \<Rightarrow> Put this k v
      | OpGet k \<Rightarrow> map_option snd (LRU_Get this k))"

fun lru_run :: "LRUCache \<Rightarrow> lru_op list \<Rightarrow> LRUCache option" where
  "lru_run this [] = Some this"
| "lru_run this (op # ops) =
     (case lru_step this op of None \<Rightarrow> None | Some this' \<Rightarrow> lru_run this' ops)"

text \<open>The same, keeping the values the \<open>Get\<close> calls return, in order.\<close>

fun lru_trace :: "LRUCache \<Rightarrow> lru_op list \<Rightarrow> (go_int list \<times> LRUCache) option" where
  "lru_trace this [] = Some ([], this)"
| "lru_trace this (OpPut k v # ops) =
     (case Put this k v of None \<Rightarrow> None | Some this' \<Rightarrow> lru_trace this' ops)"
| "lru_trace this (OpGet k # ops) =
     (case LRU_Get this k of
        None \<Rightarrow> None
      | Some (r, this') \<Rightarrow> map_option (\<lambda>(rs, s). (r # rs, s)) (lru_trace this' ops))"

section \<open>The shape of the LRU list in the store\<close>

text \<open>
  What the pointer structure looks like from outside: the \<open>next\<close>, \<open>prev\<close> and \<open>key\<close>
  fields as functions of the address, and a chain of addresses followed through one of
  the pointer fields.
\<close>

definition nextf :: "(addr \<rightharpoonup> node) \<Rightarrow> addr \<Rightarrow> addr option" where
  "nextf h a = (case h a of None \<Rightarrow> None | Some n \<Rightarrow> node_next n)"

definition prevf :: "(addr \<rightharpoonup> node) \<Rightarrow> addr \<Rightarrow> addr option" where
  "prevf h a = (case h a of None \<Rightarrow> None | Some n \<Rightarrow> node_prev n)"

definition keyf :: "(addr \<rightharpoonup> node) \<Rightarrow> addr \<Rightarrow> go_int option" where
  "keyf h a = map_option node_key (h a)"

fun chain :: "(addr \<Rightarrow> addr option) \<Rightarrow> addr option \<Rightarrow> addr list \<Rightarrow> addr option \<Rightarrow> bool" where
  "chain f x [] y = (x = y)"
| "chain f x (a # as) y = (x = Some a \<and> chain f (f a) as y)"

text \<open>
  The doubly linked list holds the nodes \<open>as\<close>, in list order: they are distinct and
  allocated, \<open>head\<close> leads through them along \<open>next\<close> to \<open>nil\<close>, and \<open>tail\<close>
  leads back through them along \<open>prev\<close> to \<open>nil\<close>.
\<close>

definition lru_shape :: "LRUCache \<Rightarrow> addr list \<Rightarrow> bool" where
  "lru_shape s as \<longleftrightarrow>
     distinct as \<and> set as \<subseteq> dom (nodes s)
     \<and> chain (nextf (nodes s)) (head s) as None
     \<and> chain (prevf (nodes s)) (tail s) (rev as) None"

text \<open>
  The cache is well formed with the nodes \<open>as\<close>: they form the list, every allocated
  address is below \<open>fresh\<close>, the map sends exactly the key of each node of the list to
  that node, and there are at most \<open>capacity\<close> of them.
\<close>

definition lru_inv :: "LRUCache \<Rightarrow> addr list \<Rightarrow> bool" where
  "lru_inv s as \<longleftrightarrow>
     lru_shape s as \<and> dom (nodes s) \<subseteq> {..<fresh s}
     \<and> (\<forall>k a. cache s k = Some a \<longleftrightarrow> a \<in> set as \<and> keyf (nodes s) a = Some k)
     \<and> 1 \<le> sint (capacity s) \<and> int (length as) \<le> sint (capacity s)"

text \<open>
  Use of a key: every \<open>Put\<close> and every \<open>Get\<close> is an operation on its key, and
  \<open>last_use ops k\<close> is the position, counted from 1, of the last operation of \<open>ops\<close>
  on \<open>k\<close> (0 when there is none). The list is in order of recency when the key of each
  node was used later than the keys of the nodes after it.
\<close>

fun op_key :: "lru_op \<Rightarrow> go_int" where
  "op_key (OpPut k v) = k"
| "op_key (OpGet k) = k"

definition last_use :: "lru_op list \<Rightarrow> go_int \<Rightarrow> nat" where
  "last_use ops k = length (dropWhile (\<lambda>op. op_key op \<noteq> k) (rev ops))"

definition key_at :: "LRUCache \<Rightarrow> addr \<Rightarrow> go_int" where
  "key_at s a = (case keyf (nodes s) a of None \<Rightarrow> 0 | Some k \<Rightarrow> k)"

definition lru_recent :: "lru_op list \<Rightarrow> LRUCache \<Rightarrow> addr list \<Rightarrow> bool" where
  "lru_recent pre s as \<longleftrightarrow>
     sorted_wrt (\<lambda>a b. last_use pre (key_at s b) < last_use pre (key_at s a)) as"

section \<open>Properties of the retry strategy\<close>

lemma Next_unfold:
  "Next f = ((Interval f, sint (cnt f + 1) \<le> sint (Max f)), f\<lparr>cnt := cnt f + 1\<rparr>)"
  by (simp add: Next_def Let_def)

lemma Next_calls_fields:
  "Interval (Next_calls n f) = Interval f \<and> Max (Next_calls n f) = Max f
   \<and> cnt (Next_calls n f) = cnt f + of_nat n"
  by (induction n arbitrary: f) (simp_all add: Next_unfold)

lemma sint_of_nat_small:
  assumes "n < 2 ^ 63"
  shows "sint (of_nat n :: go_int) = int n"
proof -
  have "signed_take_bit 63 (int n) = int n"
    using assms by (intro signed_take_bit_int_eq_self) simp_all
  then show ?thesis by (simp add: signed_of_nat)
qed

text \<open>
  C8. A fresh fixed-interval strategy (counter 0) with interval \<open>I\<close> and maximum \<open>M\<close>:
  every call of \<open>Next\<close> adds one to the counter and returns \<open>I\<close>; the flag returned by
  call number \<open>n + 1\<close> is true exactly when \<open>n + 1 \<le> M\<close>, that is for the first \<open>M\<close>
  calls and for none after them. The call number ranges over the values the 64-bit
  counter can hold.
\<close>

theorem FixIntervalRetry_Next_spec:
  assumes "cnt f = 0" and "Suc n < 2 ^ 63"
  shows "fst (Next (Next_calls n f)) = (Interval f, int (Suc n) \<le> sint (Max f))
       \<and> cnt (snd (Next (Next_calls n f))) = cnt (Next_calls n f) + 1
       \<and> sint (cnt (snd (Next (Next_calls n f)))) = int (Suc n)"
proof -
  have c: "cnt (Next_calls n f) + 1 = (of_nat (Suc n) :: go_int)"
    using assms(1) by (simp add: Next_calls_fields)
  have s: "sint (of_nat (Suc n) :: go_int) = int (Suc n)"
    using assms(2) by (rule sint_of_nat_small)
  show ?thesis
    unfolding Next_unfold fst_conv snd_conv c
    using s by (simp add: Next_calls_fields)
qed

theorem FixIntervalRetry_Next_spec_witness:
  "fst (Next (Next_calls 3 \<lparr>Interval = 50, Max = 3, cnt = 0\<rparr>)) = (50, False)
   \<and> fst (Next (Next_calls 2 \<lparr>Interval = 50, Max = 3, cnt = 0\<rparr>)) = (50, True)"
  using FixIntervalRetry_Next_spec [of "\<lparr>Interval = 50, Max = 3, cnt = 0\<rparr>" 3]
    FixIntervalRetry_Next_spec [of "\<lparr>Interval = 50, Max = 3, cnt = 0\<rparr>" 2]
  by simp

section \<open>Properties of the lock scripts and the lock handle\<close>

lemmas float64_eval = Seconds_arg_def Seconds_def fadd_def fdiv_def float64_def RN_def
  flog2_def ilog2.simps rne_def Let_def

text \<open>
  What the script receives for a lease of 2 s, of 500 ms, and of 16777217 s and 1 ns,
  where the \<open>float64\<close> swallows the nanosecond.
\<close>

lemma Seconds_arg_2s: "Seconds_arg 2000000000 = Some 2"
  by (simp add: float64_eval)


lemma Seconds_arg_swallowed: "Seconds_arg 16777217000000001 = Some 16777217"
  by (simp add: float64_eval)







lemma AutoRefresh_nil_unlock:
  "unlock c = None \<Longrightarrow> AutoRefresh c es ch n \<noteq> Returned None m"
proof (induction es arbitrary: ch n)
  case Nil
  then show ?case by simp
next
  case (Cons x es)
  show ?case
  proof (cases x)
    case (TickerC r)
    then show ?thesis using Cons by (auto simp: Let_def)
  next
    case (Ch r)
    then show ?thesis using Cons by (auto simp: Let_def)
  next
    case UnlockC
    then show ?thesis using Cons.prems by (simp add: recv_ready_def)
  qed
qed

lemma AutoRefresh_ready_unlock:
  "recv_ready (unlock c) \<Longrightarrow> AutoRefresh c (UnlockC # es) ch n = Returned None n"
  by simp

text \<open>
  C2. On a handle made by \<open>newLock\<close> the stop-signal cannot fire: \<open>unlock\<close> is the nil
  channel, so the \<open>select\<close> can never take its case, and whatever the schedule the
  watchdog never returns \<open>nil\<close>. After a release it goes on refreshing: at the next
  tick \<open>Refresh\<close> is called once more and the loop ends with \<open>ErrLockNotHold\<close>.
\<close>

theorem AutoRefresh_newLock_no_clean_exit:
  "AutoRefresh (newLock k v d) es ch n \<noteq> Returned None m
   \<and> AutoRefresh (newLock k v d) (UnlockC # es) ch n = NotEnabled
   \<and> AutoRefresh (newLock ''k'' ''t'' 2000000000) [TickerC (1, None), TickerC (0, None)] False 0
       = Returned (Some ErrLockNotHold) 2"
proof (intro conjI)
  have u: "unlock (newLock k v d) = None"
    by (simp add: newLock_def)
  show "AutoRefresh (newLock k v d) es ch n \<noteq> Returned None m"
    using u by (rule AutoRefresh_nil_unlock)
  show "AutoRefresh (newLock k v d) (UnlockC # es) ch n = NotEnabled"
    using u by (simp add: recv_ready_def)
  show "AutoRefresh (newLock ''k'' ''t'' 2000000000) [TickerC (1, None), TickerC (0, None)] False 0
          = Returned (Some ErrLockNotHold) 2"
    by (simp add: Refresh_result_def NotExistKey_def)
qed

text \<open>
  C3. A release whose round-trip fails, before or after the store has run the script:
  \<open>Int64()\<close> gives \<open>(0, err)\<close>, the first test of \<open>UnLock\<close> sees
  \<open>res \<noteq> DelSuccess\<close>, and the error returned is \<open>ErrLockNotHold\<close> whatever the
  transport error was.
\<close>

theorem UnLock_transport_error_masked:
  "fst (UnLock c (Failed e) s) = Some ErrLockNotHold
   \<and> fst (UnLock c (Lost e) s) = Some ErrLockNotHold
   \<and> UnLock (newLock ''k'' ''t'' 2000000000) (Failed (StoreErr ''i/o timeout''))
        [''k'' \<mapsto> \<lparr>token = ''t'', pttl = Some 2000\<rparr>]
      = (Some ErrLockNotHold, [''k'' \<mapsto> \<lparr>token = ''t'', pttl = Some 2000\<rparr>])"
  by (simp add: UnLock_def eval_unlock_def UnLock_result_def DelSuccess_def
        split: prod.splits)

text \<open>
  C4. An acquire with an expiration of 2 s on a free key: the script receives
  \<open>expiration.Seconds()\<close>, the number 2, as its \<open>PX\<close> argument, so the record is
  installed with a time to live of 2 milliseconds and is gone from the store 2 ms later.
  The same call on a key the caller already holds takes the script's other branch, which
  reads the same number as seconds and leaves the record 2000 ms to live.
\<close>

theorem Client_Lock_2s_installs_2ms:
  "Client_Lock nxt ''k'' ''t'' 2000000000 [\<lparr>world = id, trip = Reached, wait = TimerFired\<rparr>]
      Map.empty r 0
     = \<lparr>returned = Some (Inr (newLock ''k'' ''t'' 2000000000)),
        store_after = [''k'' \<mapsto> \<lparr>token = ''t'', pttl = Some 2\<rparr>],
        retry_after = r, attempts = 1\<rparr>
   \<and> elapse 2 [''k'' \<mapsto> \<lparr>token = ''t'', pttl = Some 2\<rparr>] ''k'' = None
   \<and> Client_Lock nxt ''k'' ''t'' 2000000000 [\<lparr>world = id, trip = Reached, wait = TimerFired\<rparr>]
      [''k'' \<mapsto> \<lparr>token = ''t'', pttl = Some 1\<rparr>] r 0
     = \<lparr>returned = Some (Inr (newLock ''k'' ''t'' 2000000000)),
        store_after = [''k'' \<mapsto> \<lparr>token = ''t'', pttl = Some 2000\<rparr>],
        retry_after = r, attempts = 1\<rparr>"
  by (simp add: eval_lock_def lock_lua_def redis_get_def redis_set_px_def redis_expire_def
        Seconds_arg_2s elapse_def)

text \<open>
  An acquire with three tries at 50 ms against a key that another owner holds and
  releases before the third attempt: the third attempt gets the lock.
\<close>

lemma Client_Lock_scenario:
  "returned (Client_Lock Next ''k'' ''t2'' 2000000000
     [\<lparr>world = id, trip = Reached, wait = TimerFired\<rparr>,
      \<lparr>world = id, trip = Reached, wait = TimerFired\<rparr>,
      \<lparr>world = (\<lambda>s. s(''k'' := None)), trip = Reached, wait = TimerFired\<rparr>]
     [''k'' \<mapsto> \<lparr>token = ''t1'', pttl = Some 9000\<rparr>]
     \<lparr>Interval = 50000000, Max = 3, cnt = 0\<rparr> 0)
   = Some (Inr (newLock ''k'' ''t2'' 2000000000))"
  by (simp add: eval_lock_def lock_lua_def redis_get_def redis_set_px_def Seconds_arg_2s
        Next_unfold)

lemma Client_Lock_append:
  "returned (Client_Lock nxt k v d pre s r n) = None \<Longrightarrow>
   Client_Lock nxt k v d (pre @ es) s r n =
     Client_Lock nxt k v d es
       (store_after (Client_Lock nxt k v d pre s r n))
       (retry_after (Client_Lock nxt k v d pre s r n))
       (attempts (Client_Lock nxt k v d pre s r n))"
proof (induction pre arbitrary: s r n)
  case Nil
  then show ?case by simp
next
  case (Cons e pre)
  then show ?case
    by (auto split: prod.splits if_splits wait_ev.splits)
qed

lemma Client_Lock_deadline:
  "trip e = Failed DeadlineExceeded \<or> trip e = Lost DeadlineExceeded \<Longrightarrow>
   Client_Lock nxt k v d (e # es) s r n =
     \<lparr>returned = Some (Inl DeadlineExceeded),
      store_after = snd (eval_lock (trip e) (world e s) k v (Seconds_arg d)),
      retry_after = r, attempts = Suc n\<rparr>"
  by (auto simp: eval_lock_def)

text \<open>
  C5. At any turn of the acquire loop (after any turns \<open>pre\<close> that did not return), an
  attempt whose round-trip fails with \<open>DeadlineExceeded\<close>, whether or not the store
  has run the script, makes the call return \<open>DeadlineExceeded\<close> at once: the retry
  state is the one the turn started with (\<open>Next\<close> is not called), the attempt is the
  last one, and the rest of the schedule plays no part.
\<close>

theorem Client_Lock_deadline_is_fatal:
  assumes "returned (Client_Lock nxt k v d pre s r n) = None"
    and "trip e = Failed DeadlineExceeded \<or> trip e = Lost DeadlineExceeded"
  shows "Client_Lock nxt k v d (pre @ e # es) s r n =
     \<lparr>returned = Some (Inl DeadlineExceeded),
      store_after = snd (eval_lock (trip e)
                      (world e (store_after (Client_Lock nxt k v d pre s r n))) k v
                      (Seconds_arg d)),
      retry_after = retry_after (Client_Lock nxt k v d pre s r n),
      attempts = Suc (attempts (Client_Lock nxt k v d pre s r n))\<rparr>"
  by (simp only: Client_Lock_append [OF assms(1)] Client_Lock_deadline [OF assms(2)])

theorem Client_Lock_deadline_is_fatal_witness:
  "Client_Lock Next ''k'' ''t'' 2000000000
     ([\<lparr>world = id, trip = Reached, wait = TimerFired\<rparr>]
      @ \<lparr>world = id, trip = Failed DeadlineExceeded, wait = TimerFired\<rparr>
      # [\<lparr>world = id, trip = Reached, wait = TimerFired\<rparr>])
     [''k'' \<mapsto> \<lparr>token = ''other'', pttl = Some 9000\<rparr>]
     \<lparr>Interval = 50000000, Max = 3, cnt = 0\<rparr> 0
   = \<lparr>returned = Some (Inl DeadlineExceeded),
      store_after = [''k'' \<mapsto> \<lparr>token = ''other'', pttl = Some 9000\<rparr>],
      retry_after = \<lparr>Interval = 50000000, Max = 3, cnt = 1\<rparr>, attempts = 2\<rparr>"
  using Client_Lock_deadline_is_fatal
          [of Next "''k''" "''t''" 2000000000
              "[\<lparr>world = id, trip = Reached, wait = TimerFired\<rparr>]"
              "[''k'' \<mapsto> \<lparr>token = ''other'', pttl = Some 9000\<rparr>]"
              "\<lparr>Interval = 50000000, Max = 3, cnt = 0\<rparr>" 0
              "\<lparr>world = id, trip = Failed DeadlineExceeded, wait = TimerFired\<rparr>"
              "[\<lparr>world = id, trip = Reached, wait = TimerFired\<rparr>]"]
  by (simp add: eval_lock_def lock_lua_def redis_get_def Next_unfold)

text \<open>
  C6. At any turn of the acquire loop (after any turns \<open>pre\<close> that did not return): when
  the attempt neither timed out nor acquired the lock, the retry strategy says continue,
  and the caller's context is done while the call waits out the interval, the call
  returns the context's error \<open>ctx.Err()\<close> there and then; the attempt is the last one
  and the rest of the schedule plays no part.
\<close>

theorem Client_Lock_cancel_during_wait:
  assumes "returned (Client_Lock nxt k v d pre s r n) = None"
    and "eval_lock (trip e) (world e (store_after (Client_Lock nxt k v d pre s r n))) k v
           (Seconds_arg d) = ((res, err), s')"
    and "err \<noteq> Some DeadlineExceeded" and "res \<noteq> Some ''OK''"
    and "nxt (retry_after (Client_Lock nxt k v d pre s r n)) = ((interval, True), r')"
    and "wait e = CtxDone ce"
  shows "Client_Lock nxt k v d (pre @ e # es) s r n =
     \<lparr>returned = Some (Inl ce), store_after = s', retry_after = r',
      attempts = Suc (attempts (Client_Lock nxt k v d pre s r n))\<rparr>"
proof -
  let ?R = "Client_Lock nxt k v d pre s r n"
  have "Client_Lock nxt k v d (e # es) (store_after ?R) (retry_after ?R) (attempts ?R) =
     \<lparr>returned = Some (Inl ce), store_after = s', retry_after = r',
      attempts = Suc (attempts ?R)\<rparr>"
    using assms(2-6) by simp
  then show ?thesis
    by (simp only: Client_Lock_append [OF assms(1)])
qed

theorem Client_Lock_cancel_during_wait_witness:
  "Client_Lock Next ''k'' ''t'' 2000000000
     ([\<lparr>world = id, trip = Reached, wait = TimerFired\<rparr>]
      @ \<lparr>world = id, trip = Reached, wait = CtxDone Canceled\<rparr>
      # [\<lparr>world = (\<lambda>s. Map.empty), trip = Reached, wait = TimerFired\<rparr>])
     [''k'' \<mapsto> \<lparr>token = ''other'', pttl = Some 9000\<rparr>]
     \<lparr>Interval = 50000000, Max = 3, cnt = 0\<rparr> 0
   = \<lparr>returned = Some (Inl Canceled),
      store_after = [''k'' \<mapsto> \<lparr>token = ''other'', pttl = Some 9000\<rparr>],
      retry_after = \<lparr>Interval = 50000000, Max = 3, cnt = 2\<rparr>, attempts = 2\<rparr>"
  using Client_Lock_cancel_during_wait
          [of Next "''k''" "''t''" 2000000000
              "[\<lparr>world = id, trip = Reached, wait = TimerFired\<rparr>]"
              "[''k'' \<mapsto> \<lparr>token = ''other'', pttl = Some 9000\<rparr>]"
              "\<lparr>Interval = 50000000, Max = 3, cnt = 0\<rparr>" 0
              "\<lparr>world = id, trip = Reached, wait = CtxDone Canceled\<rparr>"
              "Some []" None "[''k'' \<mapsto> \<lparr>token = ''other'', pttl = Some 9000\<rparr>]"
              50000000 "\<lparr>Interval = 50000000, Max = 3, cnt = 2\<rparr>" Canceled
              "[\<lparr>world = (\<lambda>s. Map.empty), trip = Reached, wait = TimerFired\<rparr>]"]
  by (simp add: eval_lock_def lock_lua_def redis_get_def Next_unfold)

lemma UnLock_ok_iff:
  "UnLock c t s = (None, s') \<longleftrightarrow>
   t = Reached \<and> map_option token (s (key c)) = Some (val c) \<and> s' = s(key c := None)"
  by (cases t)
     (auto simp: UnLock_def eval_unlock_def unlock_lua_def UnLock_result_def DelSuccess_def
        redis_get_def)

lemma UnLock_absent:
  "s (key c) = None \<Longrightarrow> UnLock c t s = (Some ErrLockNotHold, s)"
  by (cases t)
     (simp_all add: UnLock_def eval_unlock_def unlock_lua_def UnLock_result_def DelSuccess_def
        redis_get_def)

text \<open>
  C7. Once a release has succeeded the record is gone, and a second release with the same
  handle reports \<open>ErrLockNotHold\<close> and leaves the store as it is; however its
  round-trip goes, it never reports success and never changes the store.
\<close>

theorem UnLock_twice:
  assumes "UnLock c t1 s = (None, s')"
  shows "s' (key c) = None
       \<and> UnLock c Reached s' = (Some ErrLockNotHold, s')
       \<and> fst (UnLock c t2 s') \<noteq> None \<and> snd (UnLock c t2 s') = s'"
proof -
  from assms have "s' (key c) = None"
    by (simp add: UnLock_ok_iff)
  then show ?thesis
    by (simp add: UnLock_absent)
qed

theorem UnLock_twice_witness:
  "UnLock (newLock ''k'' ''t'' 2000000000) Reached
      [''k'' \<mapsto> \<lparr>token = ''t'', pttl = Some 2000\<rparr>] = (None, Map.empty)
   \<and> UnLock (newLock ''k'' ''t'' 2000000000) Reached Map.empty
      = (Some ErrLockNotHold, Map.empty)"
proof -
  have h: "UnLock (newLock ''k'' ''t'' 2000000000) Reached
      [''k'' \<mapsto> \<lparr>token = ''t'', pttl = Some 2000\<rparr>] = (None, Map.empty)"
    by (simp add: UnLock_def eval_unlock_def unlock_lua_def UnLock_result_def DelSuccess_def
          redis_get_def newLock_def)
  show ?thesis
    using h UnLock_twice [OF h, of Reached] by simp
qed

section \<open>Properties of the expiring cache\<close>

lemma Get_SetNoExpire:
  "Get (SetNoExpire defaultExpire items k v now_ns) k now = (Some v, True)"
  by (simp add: SetNoExpire_def Set_def NoExpire_def DefaultExpire_def Get_def)

lemma Get_after_sweep:
  "now' \<le> now \<Longrightarrow> Get (DeleteExpired items now') k now = Get items k now"
  by (auto simp: Get_def DeleteExpired_def split: option.splits)

lemma Get_hides_Expired:
  "items k = Some item \<Longrightarrow> 0 \<le> ExpireTime item \<Longrightarrow>
   Get items k now = (None, False) \<longleftrightarrow> Expired item now"
  by (auto simp: Get_def Expired_def)

text \<open>
  C10. \<open>Get\<close> never returns an expired value: an item that is still in the map (the
  janitor has not swept it) with a positive expiry time earlier than the clock reading
  yields \<open>(nil, false)\<close>, and an item whose expiry time is 0 is returned at every
  clock reading.
\<close>

theorem Get_never_returns_expired:
  assumes "items k = Some item"
  shows "(0 < ExpireTime item \<and> ExpireTime item < now \<longrightarrow> Get items k now = (None, False))
       \<and> (ExpireTime item = 0 \<longrightarrow> Get items k now = (Some (Obj item), True))"
  using assms by (simp add: Get_def)

theorem Get_never_returns_expired_witness:
  "Get [''age'' \<mapsto> \<lparr>Obj = (13::nat), ExpireTime = 100\<rparr>] ''age'' 104 = (None, False)
   \<and> Get [''sex'' \<mapsto> \<lparr>Obj = (7::nat), ExpireTime = 0\<rparr>] ''sex'' 104 = (Some 7, True)"
  using Get_never_returns_expired
          [of "[''age'' \<mapsto> \<lparr>Obj = (13::nat), ExpireTime = 100\<rparr>]" "''age''"
              "\<lparr>Obj = (13::nat), ExpireTime = 100\<rparr>" 104]
        Get_never_returns_expired
          [of "[''sex'' \<mapsto> \<lparr>Obj = (7::nat), ExpireTime = 0\<rparr>]" "''sex''"
              "\<lparr>Obj = (7::nat), ExpireTime = 0\<rparr>" 104]
  by simp

section \<open>Properties of the LRU cache\<close>

text \<open>
  The run of \<open>TestLRU\<close> in lru\_test.go, with the results its comments expect:
  1, -1, -1, 3, 4.
\<close>

lemma TestLRU:
  "map_option fst (lru_trace (Constructor 2)
     [OpPut 1 1, OpPut 2 2, OpGet 1, OpPut 3 3, OpGet 2, OpPut 4 4, OpGet 1, OpGet 3, OpGet 4])
   = Some [1, - 1, - 1, 3, 4]"
  by (simp add: Put_def LRU_Get_def remove_def addToHead_def Constructor_def
        Let_def fun_upd_twist)

lemma chain_append:
  "chain f x (as @ bs) z \<longleftrightarrow> (\<exists>y. chain f x as y \<and> chain f y bs z)"
  by (induction as arbitrary: x) auto

lemma chain_snoc:
  "chain f x (as @ [a]) y \<longleftrightarrow> chain f x as (Some a) \<and> f a = y"
  by (auto simp: chain_append)

lemma chain_cong:
  "(\<And>a. a \<in> set as \<Longrightarrow> f a = g a) \<Longrightarrow> chain f x as y = chain g x as y"
  by (induction as arbitrary: x) auto

lemma chain_upd:
  "u \<notin> set as \<Longrightarrow> chain (f(u := v)) x as y = chain f x as y"
  by (rule chain_cong) auto

lemma chain_mid:
  "chain f x (xs @ a # ys) z \<Longrightarrow> f a = (if ys = [] then z else Some (hd ys))"
  by (cases ys) (auto simp: chain_append)

lemma chain_start:
  "chain f x as z \<Longrightarrow> x = (if as = [] then z else Some (hd as))"
  by (cases as) auto

lemma chain_unlink:
  assumes "distinct (xs @ a # ys)" and "chain f x (xs @ a # ys) z"
  shows "chain (if xs = [] then f else f(last xs := f a)) (if xs = [] then f a else x)
           (xs @ ys) z"
proof (cases xs rule: rev_cases)
  case Nil
  then show ?thesis using assms by simp
next
  case (snoc xs' p)
  from assms(2) have 1: "chain f x xs' (Some p)" and 2: "f p = Some a"
    and 3: "chain f (f a) ys z"
    by (auto simp: snoc chain_append)
  from assms(1) have 4: "p \<notin> set xs'" and 5: "p \<notin> set ys"
    by (auto simp: snoc)
  have "chain (f(p := f a)) x (xs' @ [p] @ ys) z"
    using 1 3 4 5 by (auto simp: chain_append chain_upd)
  then show ?thesis by (simp add: snoc)
qed

lemma remove_effect:
  assumes "nodes s a = Some n"
    and "\<And>p. node_prev n = Some p \<Longrightarrow> p \<in> dom (nodes s)"
    and "\<And>q. node_next n = Some q \<Longrightarrow> q \<in> dom (nodes s)"
  shows "\<exists>s'. remove s a = Some s'
     \<and> nextf (nodes s') = (case node_prev n of None \<Rightarrow> nextf (nodes s)
                             | Some p \<Rightarrow> (nextf (nodes s))(p := node_next n))
     \<and> head s' = (case node_prev n of None \<Rightarrow> node_next n | Some p \<Rightarrow> head s)
     \<and> prevf (nodes s') = (case node_next n of None \<Rightarrow> prevf (nodes s)
                             | Some q \<Rightarrow> (prevf (nodes s))(q := node_prev n))
     \<and> tail s' = (case node_next n of None \<Rightarrow> node_prev n | Some q \<Rightarrow> tail s)
     \<and> keyf (nodes s') = keyf (nodes s) \<and> dom (nodes s') = dom (nodes s)
     \<and> cache s' = cache s \<and> capacity s' = capacity s \<and> fresh s' = fresh s"
proof (cases "node_prev n")
  case None
  note P = this
  show ?thesis
  proof (cases "node_next n")
    case None
    then show ?thesis using assms(1) P
      by (simp add: remove_def)
  next
    case (Some q)
    with assms(3) obtain qn where "nodes s q = Some qn" by auto
    then show ?thesis using assms(1) P Some
      by (auto simp: remove_def nextf_def prevf_def keyf_def fun_eq_iff)
  qed
next
  case (Some p)
  note P = this
  with assms(2) obtain pn where pn: "nodes s p = Some pn" by auto
  show ?thesis
  proof (cases "node_next n")
    case None
    then show ?thesis using assms(1) P pn
      by (auto simp: remove_def nextf_def prevf_def keyf_def fun_eq_iff)
  next
    case (Some q)
    with assms(3) obtain qn where "nodes s q = Some qn" by auto
    then show ?thesis using assms(1) P pn Some
      by (auto simp: remove_def nextf_def prevf_def keyf_def fun_eq_iff)
  qed
qed

lemma addToHead_effect:
  assumes "nodes s a = Some n"
    and "\<And>h. head s = Some h \<Longrightarrow> h \<in> dom (nodes s)"
  shows "\<exists>s'. addToHead s a = Some s'
     \<and> nextf (nodes s') = (nextf (nodes s))(a := head s)
     \<and> head s' = Some a
     \<and> prevf (nodes s') = (case head s of None \<Rightarrow> (prevf (nodes s))(a := None)
                             | Some h \<Rightarrow> (prevf (nodes s))(a := None, h := Some a))
     \<and> tail s' = (if tail s = None then Some a else tail s)
     \<and> keyf (nodes s') = keyf (nodes s) \<and> dom (nodes s') = dom (nodes s)
     \<and> cache s' = cache s \<and> capacity s' = capacity s \<and> fresh s' = fresh s"
proof (cases "head s")
  case None
  then show ?thesis using assms(1)
    by (auto simp: addToHead_def nextf_def prevf_def keyf_def fun_eq_iff)
next
  case (Some h)
  with assms(2) obtain hn where "nodes s h = Some hn" by auto
  then show ?thesis using assms(1) Some
    by (auto simp: addToHead_def nextf_def prevf_def keyf_def fun_eq_iff Let_def)
qed

lemma remove_shape:
  assumes "lru_shape s (xs @ a # ys)"
  shows "\<exists>s'. remove s a = Some s' \<and> lru_shape s' (xs @ ys)
     \<and> keyf (nodes s') = keyf (nodes s) \<and> dom (nodes s') = dom (nodes s)
     \<and> cache s' = cache s \<and> capacity s' = capacity s \<and> fresh s' = fresh s"
proof -
  let ?nx = "nextf (nodes s)" and ?pv = "prevf (nodes s)"
  from assms have dist: "distinct (xs @ a # ys)" and al: "set (xs @ a # ys) \<subseteq> dom (nodes s)"
    and fw: "chain ?nx (head s) (xs @ a # ys) None"
    and bw: "chain ?pv (tail s) (rev ys @ a # rev xs) None"
    by (simp_all add: lru_shape_def)
  from al obtain n where n: "nodes s a = Some n" by auto
  have nx: "node_next n = (if ys = [] then None else Some (hd ys))"
    using chain_mid [OF fw] n by (simp add: nextf_def)
  have pv: "node_prev n = (if xs = [] then None else Some (last xs))"
    using chain_mid [OF bw] n by (simp add: prevf_def hd_rev)
  have pa: "\<And>p. node_prev n = Some p \<Longrightarrow> p \<in> dom (nodes s)"
  proof -
    fix p assume "node_prev n = Some p"
    with pv have "xs \<noteq> []" and "p = last xs" by (auto split: if_splits)
    then have "p \<in> set xs" by simp
    with al show "p \<in> dom (nodes s)" by auto
  qed
  have qa: "\<And>q. node_next n = Some q \<Longrightarrow> q \<in> dom (nodes s)"
  proof -
    fix q assume "node_next n = Some q"
    with nx have "ys \<noteq> []" and "q = hd ys" by (auto split: if_splits)
    then have "q \<in> set ys" by simp
    with al show "q \<in> dom (nodes s)" by auto
  qed
  from remove_effect [OF n pa qa] obtain s' where r: "remove s a = Some s'"
    and nx': "nextf (nodes s') = (case node_prev n of None \<Rightarrow> ?nx
                                  | Some p \<Rightarrow> ?nx(p := node_next n))"
    and hd': "head s' = (case node_prev n of None \<Rightarrow> node_next n | Some p \<Rightarrow> head s)"
    and pv': "prevf (nodes s') = (case node_next n of None \<Rightarrow> ?pv
                                  | Some q \<Rightarrow> ?pv(q := node_prev n))"
    and tl': "tail s' = (case node_next n of None \<Rightarrow> node_prev n | Some q \<Rightarrow> tail s)"
    and rest: "keyf (nodes s') = keyf (nodes s)" "dom (nodes s') = dom (nodes s)"
      "cache s' = cache s" "capacity s' = capacity s" "fresh s' = fresh s"
    by blast
  have na: "?nx a = node_next n" and pa': "?pv a = node_prev n"
    using n by (simp_all add: nextf_def prevf_def)
  have f1: "nextf (nodes s') = (if xs = [] then ?nx else ?nx(last xs := ?nx a))"
    and f2: "head s' = (if xs = [] then ?nx a else head s)"
    by (simp_all add: nx' hd' pv na)
  have fw': "chain (nextf (nodes s')) (head s') (xs @ ys) None"
    unfolding f1 f2 using dist fw by (rule chain_unlink)
  have dist': "distinct (rev ys @ a # rev xs)"
    using dist by auto
  have b1: "prevf (nodes s') = (if rev ys = [] then ?pv else ?pv(last (rev ys) := ?pv a))"
    and b2: "tail s' = (if rev ys = [] then ?pv a else tail s)"
    by (simp_all add: pv' tl' nx pa' last_rev)
  have bw': "chain (prevf (nodes s')) (tail s') (rev ys @ rev xs) None"
    unfolding b1 b2 using dist' bw by (rule chain_unlink)
  have "lru_shape s' (xs @ ys)"
    using dist al fw' bw' rest(2) by (simp add: lru_shape_def)
  with r rest show ?thesis by blast
qed

lemma addToHead_shape:
  assumes "lru_shape s as" and "a \<notin> set as" and "a \<in> dom (nodes s)"
  shows "\<exists>s'. addToHead s a = Some s' \<and> lru_shape s' (a # as)
     \<and> keyf (nodes s') = keyf (nodes s) \<and> dom (nodes s') = dom (nodes s)
     \<and> cache s' = cache s \<and> capacity s' = capacity s \<and> fresh s' = fresh s"
proof -
  let ?nx = "nextf (nodes s)" and ?pv = "prevf (nodes s)"
  from assms(1) have dist: "distinct as" and al: "set as \<subseteq> dom (nodes s)"
    and fw: "chain ?nx (head s) as None"
    and bw: "chain ?pv (tail s) (rev as) None"
    by (simp_all add: lru_shape_def)
  from assms(3) obtain n where n: "nodes s a = Some n" by auto
  have hd: "head s = (if as = [] then None else Some (hd as))"
    using chain_start [OF fw] .
  have tl: "tail s = (if as = [] then None else Some (last as))"
    using chain_start [OF bw] by (simp add: hd_rev)
  have ha: "\<And>h. head s = Some h \<Longrightarrow> h \<in> dom (nodes s)"
  proof -
    fix h assume "head s = Some h"
    with hd have "as \<noteq> []" and "h = hd as" by (auto split: if_splits)
    then have "h \<in> set as" by simp
    with al show "h \<in> dom (nodes s)" by auto
  qed
  from addToHead_effect [OF n ha] obtain s' where r: "addToHead s a = Some s'"
    and nx': "nextf (nodes s') = ?nx(a := head s)"
    and hd': "head s' = Some a"
    and pv': "prevf (nodes s') = (case head s of None \<Rightarrow> ?pv(a := None)
                                  | Some h \<Rightarrow> ?pv(a := None, h := Some a))"
    and tl': "tail s' = (if tail s = None then Some a else tail s)"
    and rest: "keyf (nodes s') = keyf (nodes s)" "dom (nodes s') = dom (nodes s)"
      "cache s' = cache s" "capacity s' = capacity s" "fresh s' = fresh s"
    by blast
  have fw': "chain (nextf (nodes s')) (head s') (a # as) None"
    using fw assms(2) by (simp add: nx' hd' chain_upd)
  have bw': "chain (prevf (nodes s')) (tail s') (rev as @ [a]) None"
  proof (cases as)
    case Nil
    then show ?thesis using hd tl by (simp add: pv' tl')
  next
    case (Cons h as')
    with bw have 1: "chain ?pv (tail s) (rev as') (Some h)" and 2: "?pv h = None"
      by (simp_all add: chain_snoc)
    from Cons dist assms(2) have 3: "h \<notin> set as'" and 4: "a \<notin> set as'" and 5: "a \<noteq> h"
      by auto
    have c: "chain (?pv(a := None, h := Some a)) (tail s) (rev as') (Some h)"
      using 1 3 4 by (simp add: chain_upd)
    have F: "prevf (nodes s') = ?pv(a := None, h := Some a)"
      using pv' hd Cons by simp
    have T: "tail s' = tail s"
      using tl' tl Cons by simp
    show ?thesis
      unfolding F T using c 5 by (simp add: Cons chain_append)
  qed
  have "lru_shape s' (a # as)"
    using dist al assms(2,3) fw' bw' rest(2) by (simp add: lru_shape_def)
  with r rest show ?thesis by blast
qed

lemma lru_shape_cache_upd [simp]:
  "lru_shape (s\<lparr>cache := c\<rparr>) as = lru_shape s as"
  by (simp add: lru_shape_def)

lemma lru_shape_alloc:
  assumes "lru_shape s as" and "a \<notin> dom (nodes s)"
  shows "lru_shape (s\<lparr>nodes := (nodes s)(a \<mapsto> n), fresh := f\<rparr>) as"
proof -
  from assms have na: "a \<notin> set as"
    by (auto simp: lru_shape_def)
  have "chain (nextf ((nodes s)(a \<mapsto> n))) (head s) as None
          = chain (nextf (nodes s)) (head s) as None"
    using na by (intro chain_cong) (auto simp: nextf_def)
  moreover have "chain (prevf ((nodes s)(a \<mapsto> n))) (tail s) (rev as) None
          = chain (prevf (nodes s)) (tail s) (rev as) None"
    using na by (intro chain_cong) (auto simp: prevf_def)
  ultimately show ?thesis
    using assms(1) by (auto simp: lru_shape_def)
qed

lemma lru_shape_value_upd:
  assumes "lru_shape s as" and "nodes s a = Some n"
  shows "lru_shape (s\<lparr>nodes := (nodes s)(a \<mapsto> n\<lparr>node_value := v\<rparr>)\<rparr>) as"
proof -
  have "nextf ((nodes s)(a \<mapsto> n\<lparr>node_value := v\<rparr>)) = nextf (nodes s)"
    and "prevf ((nodes s)(a \<mapsto> n\<lparr>node_value := v\<rparr>)) = prevf (nodes s)"
    using assms(2) by (auto simp: nextf_def prevf_def fun_eq_iff)
  then show ?thesis
    using assms by (auto simp: lru_shape_def)
qed

lemma lru_inv_card:
  assumes "lru_inv s as"
  shows "card (dom (cache s)) = length as"
proof -
  let ?g = "\<lambda>a. the (keyf (nodes s) a)"
  from assms have rel: "\<And>k a. cache s k = Some a \<longleftrightarrow> a \<in> set as \<and> keyf (nodes s) a = Some k"
    and dist: "distinct as" and al: "set as \<subseteq> dom (nodes s)"
    by (simp_all add: lru_inv_def lru_shape_def)
  have key: "cache s (?g a) = Some a" if a: "a \<in> set as" for a
  proof -
    from a al obtain n where "nodes s a = Some n" by auto
    then have "keyf (nodes s) a = Some (node_key n)"
      by (simp add: keyf_def)
    then show ?thesis
      by (simp add: rel a)
  qed
  have "dom (cache s) = ?g ` set as"
  proof (intro set_eqI iffI)
    fix k assume "k \<in> dom (cache s)"
    then obtain a where "cache s k = Some a" by auto
    then have "a \<in> set as" and "keyf (nodes s) a = Some k"
      by (simp_all add: rel)
    then have "a \<in> set as" and "k = ?g a" by simp_all
    then show "k \<in> ?g ` set as" by (rule_tac image_eqI)
  next
    fix k assume "k \<in> ?g ` set as"
    then obtain a where "a \<in> set as" and "k = ?g a" by auto
    then have "cache s k = Some a"
      using key by simp
    then show "k \<in> dom (cache s)" by auto
  qed
  moreover have "inj_on ?g (set as)"
  proof (rule inj_onI)
    fix a b assume a: "a \<in> set as" and b: "b \<in> set as" and eq: "?g a = ?g b"
    from key [OF a] have "cache s (?g b) = Some a"
      unfolding eq .
    with key [OF b] show "a = b" by simp
  qed
  ultimately show ?thesis
    using dist by (simp add: card_image distinct_card)
qed

lemma touch_inv:
  assumes "lru_inv s as" and "a \<in> set as"
  shows "\<exists>s1 s2. remove s a = Some s1 \<and> addToHead s1 a = Some s2
     \<and> lru_inv s2 (a # remove1 a as) \<and> capacity s2 = capacity s \<and> cache s2 = cache s
     \<and> keyf (nodes s2) = keyf (nodes s)"
proof -
  from assms(2) obtain xs ys where as: "as = xs @ a # ys"
    by (auto dest: split_list)
  from assms(1) have sh: "lru_shape s (xs @ a # ys)"
    by (simp add: lru_inv_def as)
  then have dist: "distinct (xs @ a # ys)"
    by (simp add: lru_shape_def)
  then have r1: "remove1 a (xs @ a # ys) = xs @ ys"
    by (simp add: remove1_append)
  from remove_shape [OF sh] obtain s1 where 1: "remove s a = Some s1"
    and sh1: "lru_shape s1 (xs @ ys)"
    and k1: "keyf (nodes s1) = keyf (nodes s)" and d1: "dom (nodes s1) = dom (nodes s)"
    and c1: "cache s1 = cache s" "capacity s1 = capacity s" "fresh s1 = fresh s"
    by blast
  have "a \<notin> set (xs @ ys)"
    using dist by auto
  moreover have "a \<in> dom (nodes s1)"
    using sh d1 by (auto simp: lru_shape_def)
  ultimately obtain s2 where 2: "addToHead s1 a = Some s2"
    and sh2: "lru_shape s2 (a # xs @ ys)"
    and k2: "keyf (nodes s2) = keyf (nodes s1)" and d2: "dom (nodes s2) = dom (nodes s1)"
    and c2: "cache s2 = cache s1" "capacity s2 = capacity s1" "fresh s2 = fresh s1"
    using addToHead_shape [OF sh1] by blast
  have "lru_inv s2 (a # remove1 a as)"
    using assms(1) sh2 unfolding lru_inv_def as r1 k2 k1 d2 d1 c2 c1
    by auto
  with 1 2 c1 c2 k1 k2 show ?thesis by auto
qed

lemma LRU_Get_inv:
  assumes "lru_inv s as"
  shows "\<exists>v s'. LRU_Get s k = Some (v, s')
     \<and> lru_inv s' (case cache s k of None \<Rightarrow> as | Some a \<Rightarrow> a # remove1 a as)
     \<and> capacity s' = capacity s \<and> keyf (nodes s') = keyf (nodes s)"
proof (cases "cache s k")
  case None
  then show ?thesis using assms by (simp add: LRU_Get_def)
next
  case (Some a)
  with assms have "a \<in> set as"
    by (simp add: lru_inv_def)
  from touch_inv [OF assms this] obtain s1 s2 where 1: "remove s a = Some s1"
    and 2: "addToHead s1 a = Some s2" and inv: "lru_inv s2 (a # remove1 a as)"
    and c: "capacity s2 = capacity s" "keyf (nodes s2) = keyf (nodes s)"
    by blast
  from inv have "a \<in> dom (nodes s2)"
    by (simp add: lru_inv_def lru_shape_def)
  then obtain n where "nodes s2 a = Some n" by auto
  then show ?thesis using Some 1 2 inv c
    by (simp add: LRU_Get_def)
qed

lemma Put_existing:
  assumes "lru_inv s as" and "cache s k = Some a"
  shows "\<exists>s'. Put s k v = Some s' \<and> lru_inv s' (a # remove1 a as)
     \<and> capacity s' = capacity s \<and> cache s' = cache s
     \<and> keyf (nodes s') = keyf (nodes s)"
proof -
  from assms have a: "a \<in> set as"
    by (simp add: lru_inv_def)
  with assms(1) obtain n where n: "nodes s a = Some n"
    by (auto simp: lru_inv_def lru_shape_def)
  let ?s1 = "s\<lparr>nodes := (nodes s)(a \<mapsto> n\<lparr>node_value := v\<rparr>)\<rparr>"
  have k1: "keyf (nodes ?s1) = keyf (nodes s)" and d1: "dom (nodes ?s1) = dom (nodes s)"
    using n by (auto simp: keyf_def fun_eq_iff)
  have sh1: "lru_shape ?s1 as"
    using assms(1) n by (simp add: lru_inv_def lru_shape_value_upd)
  have inv1: "lru_inv ?s1 as"
    using assms(1) sh1 unfolding lru_inv_def k1 d1 by simp
  from touch_inv [OF inv1 a] obtain s1 s2 where "remove ?s1 a = Some s1"
    and "addToHead s1 a = Some s2" and "lru_inv s2 (a # remove1 a as)"
    and "capacity s2 = capacity ?s1" and "cache s2 = cache ?s1"
    and "keyf (nodes s2) = keyf (nodes ?s1)"
    by blast
  then show ?thesis
    using assms(2) n k1 by (simp add: Put_def)
qed

lemma lru_inv_install:
  assumes inv: "lru_inv s as" and sub: "set xs \<subseteq> set as"
    and len: "int (length xs) < sint (capacity s)"
    and sh: "lru_shape s3 (fresh s # xs)"
    and k3: "keyf (nodes s3) = (keyf (nodes s))(fresh s \<mapsto> k)"
    and d3: "dom (nodes s3) = insert (fresh s) (dom (nodes s))"
    and f3: "fresh s3 = Suc (fresh s)" and c3: "capacity s3 = capacity s"
    and rel: "\<And>k' b. k' \<noteq> k \<Longrightarrow> c k' = Some b \<longleftrightarrow> b \<in> set xs \<and> keyf (nodes s) b = Some k'"
    and new: "cache s k = None"
  shows "lru_inv (s3\<lparr>cache := c(k \<mapsto> fresh s)\<rparr>) (fresh s # xs)"
proof -
  from inv have dom: "dom (nodes s) \<subseteq> {..<fresh s}"
    and old: "\<And>k a. cache s k = Some a \<longleftrightarrow> a \<in> set as \<and> keyf (nodes s) a = Some k"
    and cap: "1 \<le> sint (capacity s)"
    by (simp_all add: lru_inv_def)
  have fr: "fresh s \<notin> set xs"
    using sh by (simp add: lru_shape_def)
  have nok: "keyf (nodes s) b \<noteq> Some k" if "b \<in> set xs" for b
  proof
    assume "keyf (nodes s) b = Some k"
    with that sub old [of k b] have "cache s k = Some b" by auto
    with new show False by simp
  qed
  have R: "(c(k \<mapsto> fresh s)) k' = Some b \<longleftrightarrow>
          b \<in> set (fresh s # xs) \<and> ((keyf (nodes s))(fresh s \<mapsto> k)) b = Some k'" for k' b
  proof (cases "k' = k")
    case True
    then show ?thesis using fr nok by auto
  next
    case False
    then show ?thesis using rel [OF False, of b] fr by auto
  qed
  let ?S = "s3\<lparr>cache := c(k \<mapsto> fresh s)\<rparr>"
  show ?thesis
    unfolding lru_inv_def
  proof (intro conjI allI)
    show "lru_shape ?S (fresh s # xs)"
      using sh by simp
    show "dom (nodes ?S) \<subseteq> {..<fresh ?S}"
      using dom by (auto simp: d3 f3)
    show "cache ?S k' = Some b \<longleftrightarrow> b \<in> set (fresh s # xs) \<and> keyf (nodes ?S) b = Some k'"
      for k' b
    proof -
      have e: "cache ?S = c(k \<mapsto> fresh s)" "nodes ?S = nodes s3"
        by simp_all
      show ?thesis
        by (simp only: e k3 R)
    qed
    show "1 \<le> sint (capacity ?S)"
      using cap by (simp add: c3)
    show "int (length (fresh s # xs)) \<le> sint (capacity ?S)"
      using len by (simp add: c3)
  qed
qed

lemma Put_new_room:
  assumes "lru_inv s as" and "cache s k = None" and "int (length as) \<noteq> sint (capacity s)"
  shows "\<exists>s'. Put s k v = Some s' \<and> lru_inv s' (fresh s # as)
     \<and> capacity s' = capacity s \<and> cache s' = (cache s)(k \<mapsto> fresh s)
     \<and> keyf (nodes s') = (keyf (nodes s))(fresh s \<mapsto> k)"
proof -
  let ?a = "fresh s"
  let ?n = "\<lparr>node_key = k, node_value = v, node_prev = None, node_next = None\<rparr>"
  let ?s1 = "s\<lparr>nodes := (nodes s)(?a \<mapsto> ?n), fresh := Suc ?a\<rparr>"
  from assms(1) have dom: "dom (nodes s) \<subseteq> {..<?a}" and sh: "lru_shape s as"
    and le: "int (length as) \<le> sint (capacity s)"
    and old: "\<And>k a. cache s k = Some a \<longleftrightarrow> a \<in> set as \<and> keyf (nodes s) a = Some k"
    by (simp_all add: lru_inv_def)
  from dom have fr: "?a \<notin> dom (nodes s)" by auto
  have sh1: "lru_shape ?s1 as"
    using sh fr by (rule lru_shape_alloc)
  have "?a \<notin> set as"
    using sh fr by (auto simp: lru_shape_def)
  moreover have "?a \<in> dom (nodes ?s1)" by simp
  ultimately obtain s3 where 3: "addToHead ?s1 ?a = Some s3"
    and sh3: "lru_shape s3 (?a # as)"
    and k3: "keyf (nodes s3) = keyf (nodes ?s1)" and d3: "dom (nodes s3) = dom (nodes ?s1)"
    and c3: "cache s3 = cache ?s1" "capacity s3 = capacity ?s1" "fresh s3 = fresh ?s1"
    using addToHead_shape [OF sh1] by blast
  have k3': "keyf (nodes s3) = (keyf (nodes s))(?a \<mapsto> k)"
    unfolding k3 by (auto simp: keyf_def fun_eq_iff)
  have "lru_inv (s3\<lparr>cache := (cache s)(k \<mapsto> ?a)\<rparr>) (?a # as)"
  proof (rule lru_inv_install [OF assms(1) subset_refl _ sh3 k3'])
    show "int (length as) < sint (capacity s)" using le assms(3) by simp
    show "dom (nodes s3) = insert ?a (dom (nodes s))" unfolding d3 by simp
    show "fresh s3 = Suc ?a" using c3 by simp
    show "capacity s3 = capacity s" using c3 by simp
    show "cache s k = None" by fact
    show "cache s k' = Some b \<longleftrightarrow> b \<in> set as \<and> keyf (nodes s) b = Some k'" for k' b
      by (rule old)
  qed
  moreover have "card (dom (cache s)) = length as"
    using assms(1) by (rule lru_inv_card)
  ultimately show ?thesis
    using assms(2,3) 3 c3 k3' by (simp add: Put_def Let_def)
qed

lemma Put_new_full:
  assumes "lru_inv s as" and "cache s k = None" and "int (length as) = sint (capacity s)"
  shows "\<exists>s' tn. tail s = Some (last as) \<and> nodes s (last as) = Some tn
     \<and> cache s (node_key tn) = Some (last as)
     \<and> Put s k v = Some s' \<and> lru_inv s' (fresh s # butlast as)
     \<and> capacity s' = capacity s
     \<and> cache s' = ((cache s)(node_key tn := None))(k \<mapsto> fresh s)
     \<and> keyf (nodes s') = (keyf (nodes s))(fresh s \<mapsto> k)"
proof -
  let ?a = "fresh s" and ?t = "last as" and ?xs = "butlast as"
  let ?n = "\<lparr>node_key = k, node_value = v, node_prev = None, node_next = None\<rparr>"
  let ?s1 = "s\<lparr>nodes := (nodes s)(?a \<mapsto> ?n), fresh := Suc ?a\<rparr>"
  from assms(1) have dom: "dom (nodes s) \<subseteq> {..<?a}" and sh: "lru_shape s as"
    and cap: "1 \<le> sint (capacity s)"
    and old: "\<And>k a. cache s k = Some a \<longleftrightarrow> a \<in> set as \<and> keyf (nodes s) a = Some k"
    by (simp_all add: lru_inv_def)
  from sh have dist: "distinct as" and al: "set as \<subseteq> dom (nodes s)"
    and bw: "chain (prevf (nodes s)) (tail s) (rev as) None"
    by (simp_all add: lru_shape_def)
  from cap assms(3) have ne: "as \<noteq> []" by auto
  then have as: "as = ?xs @ [?t]" by simp
  have tl: "tail s = Some ?t"
    using chain_start [OF bw] ne by (simp add: hd_rev)
  from ne have tin: "?t \<in> set as" by simp
  with al obtain tn where tn: "nodes s ?t = Some tn" by auto
  then have kt: "keyf (nodes s) ?t = Some (node_key tn)"
    by (simp add: keyf_def)
  with tin old have ct: "cache s (node_key tn) = Some ?t" by simp
  from dom have fr: "?a \<notin> dom (nodes s)" by auto
  with tin al have ta: "?t \<noteq> ?a" by auto
  have "distinct (?xs @ [?t])" and sa: "set (?xs @ [?t]) = set as"
    using dist ne by simp_all
  then have tx: "?t \<notin> set ?xs" by simp
  let ?s1' = "?s1\<lparr>cache := (cache s)(node_key tn := None)\<rparr>"
  have "lru_shape ?s1 as"
    using sh fr by (rule lru_shape_alloc)
  then have "lru_shape ?s1' (?xs @ ?t # [])"
    using as by simp
  from remove_shape [OF this] obtain s2 where 2: "remove ?s1' ?t = Some s2"
    and sh2: "lru_shape s2 ?xs"
    and k2: "keyf (nodes s2) = keyf (nodes ?s1')" and d2: "dom (nodes s2) = dom (nodes ?s1')"
    and c2: "cache s2 = cache ?s1'" "capacity s2 = capacity ?s1'" "fresh s2 = fresh ?s1'"
    by auto
  have "?a \<notin> set ?xs"
    using fr al by (auto dest: in_set_butlastD)
  moreover have "?a \<in> dom (nodes s2)"
    unfolding d2 by simp
  ultimately obtain s3 where 3: "addToHead s2 ?a = Some s3"
    and sh3: "lru_shape s3 (?a # ?xs)"
    and k3: "keyf (nodes s3) = keyf (nodes s2)" and d3: "dom (nodes s3) = dom (nodes s2)"
    and c3: "cache s3 = cache s2" "capacity s3 = capacity s2" "fresh s3 = fresh s2"
    using addToHead_shape [OF sh2] by blast
  have k3': "keyf (nodes s3) = (keyf (nodes s))(?a \<mapsto> k)"
    unfolding k3 k2 by (auto simp: keyf_def fun_eq_iff)
  have inv': "lru_inv (s3\<lparr>cache := ((cache s)(node_key tn := None))(k \<mapsto> ?a)\<rparr>) (?a # ?xs)"
  proof (rule lru_inv_install [OF assms(1) _ _ sh3 k3'])
    show "set ?xs \<subseteq> set as"
      by (auto dest: in_set_butlastD)
    show "int (length ?xs) < sint (capacity s)"
      using assms(3) ne by (cases as) auto
    show "dom (nodes s3) = insert ?a (dom (nodes s))"
      unfolding d3 d2 by simp
    show "fresh s3 = Suc ?a" using c3 c2 by simp
    show "capacity s3 = capacity s" using c3 c2 by simp
    show "cache s k = None" by fact
    show "((cache s)(node_key tn := None)) k' = Some b \<longleftrightarrow>
            b \<in> set ?xs \<and> keyf (nodes s) b = Some k'" for k' b
    proof (cases "k' = node_key tn")
      case True
      have "\<not> (b \<in> set ?xs \<and> keyf (nodes s) b = Some (node_key tn))"
      proof
        assume b: "b \<in> set ?xs \<and> keyf (nodes s) b = Some (node_key tn)"
        then have "b \<in> set as" by (auto dest: in_set_butlastD)
        with b old have "cache s (node_key tn) = Some b" by simp
        with ct have "b = ?t" by simp
        with b tx show False by simp
      qed
      with True show ?thesis by simp
    next
      case False
      have "b \<in> set as \<and> keyf (nodes s) b = Some k' \<longleftrightarrow>
              b \<in> set ?xs \<and> keyf (nodes s) b = Some k'"
      proof -
        have "set as = insert ?t (set ?xs)"
          unfolding sa [symmetric] by simp
        with False kt show ?thesis by auto
      qed
      with False old [of k' b] show ?thesis by simp
    qed
  qed
  have card: "card (dom (cache s)) = length as"
    using assms(1) by (rule lru_inv_card)
  have "Put s k v = Some (s3\<lparr>cache := ((cache s)(node_key tn := None))(k \<mapsto> ?a)\<rparr>)"
    using assms(2,3) card tl tn ta 2 3 c3 c2 by (simp add: Put_def Let_def)
  with inv' tl tn ct c3 c2 k3' show ?thesis by simp
qed

lemma last_use_snoc:
  "last_use (pre @ [op]) k = (if k = op_key op then Suc (length pre) else last_use pre k)"
  by (auto simp: last_use_def)

lemma last_use_le: "last_use pre k \<le> length pre"
  using length_dropWhile_le [of "\<lambda>op. op_key op \<noteq> k" "rev pre"]
  by (simp add: last_use_def)

lemma sorted_wrt_remove1: "sorted_wrt P xs \<Longrightarrow> sorted_wrt P (remove1 a xs)"
proof (induction xs)
  case Nil
  then show ?case by simp
next
  case (Cons x xs)
  then show ?case
    using set_remove1_subset [of a xs] by auto
qed

lemma sorted_wrt_butlast: "sorted_wrt P xs \<Longrightarrow> sorted_wrt P (butlast xs)"
  by (induction xs) (auto dest: in_set_butlastD)

lemma key_at_keyf:
  "nodes s a = Some n \<Longrightarrow> keyf (nodes s) a = Some (key_at s a)"
  by (simp add: keyf_def key_at_def)

lemma keyf_key_at:
  "keyf (nodes s) a = Some k \<Longrightarrow> key_at s a = k"
  by (simp add: key_at_def)

lemma lru_inv_key:
  assumes "lru_inv s as" and "a \<in> set as"
  shows "cache s (key_at s a) = Some a"
proof -
  from assms obtain n where "nodes s a = Some n"
    by (auto simp: lru_inv_def lru_shape_def)
  then have "keyf (nodes s) a = Some (key_at s a)"
    by (rule key_at_keyf)
  with assms show ?thesis
    by (simp add: lru_inv_def)
qed

lemma lru_recent_front:
  assumes sx: "sorted_wrt (\<lambda>a b. last_use pre (key_at s b) < last_use pre (key_at s a)) xs"
    and old: "\<And>b. b \<in> set xs \<Longrightarrow> key_at s' b = key_at s b \<and> key_at s b \<noteq> op_key op"
    and new: "key_at s' a = op_key op"
  shows "lru_recent (pre @ [op]) s' (a # xs)"
proof -
  let ?P = "\<lambda>a b. last_use pre (key_at s b) < last_use pre (key_at s a)"
  let ?Q = "\<lambda>a b. last_use (pre @ [op]) (key_at s' b) < last_use (pre @ [op]) (key_at s' a)"
  have same: "last_use (pre @ [op]) (key_at s' b) = last_use pre (key_at s b)"
    if "b \<in> set xs" for b
    using old [OF that] by (simp add: last_use_snoc)
  have "sorted_wrt ?Q xs"
    using sx
  proof (rule sorted_wrt_mono_rel [rotated])
    fix x y assume "x \<in> set xs" and "y \<in> set xs" and "?P x y"
    then show "?Q x y" by (simp add: same)
  qed
  moreover have "?Q a b" if "b \<in> set xs" for b
  proof -
    have "last_use (pre @ [op]) (key_at s' a) = Suc (length pre)"
      by (simp add: new last_use_snoc)
    with same [OF that] last_use_le [of pre "key_at s b"] show ?thesis by simp
  qed
  ultimately show ?thesis
    by (simp add: lru_recent_def)
qed

lemma lru_recent_same:
  assumes "lru_recent pre s as"
    and old: "\<And>b. b \<in> set as \<Longrightarrow> key_at s b \<noteq> op_key op"
  shows "lru_recent (pre @ [op]) s as"
  unfolding lru_recent_def
  using assms(1) [unfolded lru_recent_def]
proof (rule sorted_wrt_mono_rel [rotated])
  fix x y assume "x \<in> set as" and "y \<in> set as"
    and "last_use pre (key_at s y) < last_use pre (key_at s x)"
  then show "last_use (pre @ [op]) (key_at s y) < last_use (pre @ [op]) (key_at s x)"
    using old by (simp add: last_use_snoc)
qed

lemma use_existing_recent:
  assumes inv: "lru_inv s as" and rc: "lru_recent pre s as"
    and hit: "cache s (op_key op) = Some a"
    and kf: "keyf (nodes s') = keyf (nodes s)"
  shows "lru_recent (pre @ [op]) s' (a # remove1 a as)"
proof (rule lru_recent_front)
  show "sorted_wrt (\<lambda>a b. last_use pre (key_at s b) < last_use pre (key_at s a)) (remove1 a as)"
    using rc unfolding lru_recent_def by (rule sorted_wrt_remove1)
  have ka: "key_at s' = key_at s"
    by (simp add: key_at_def kf fun_eq_iff)
  from inv hit have "keyf (nodes s) a = Some (op_key op)"
    by (simp add: lru_inv_def)
  then show "key_at s' a = op_key op"
    unfolding ka by (rule keyf_key_at)
  fix b assume "b \<in> set (remove1 a as)"
  moreover from inv have "distinct as"
    by (simp add: lru_inv_def lru_shape_def)
  ultimately have b: "b \<in> set as" and ne: "b \<noteq> a" by auto
  from lru_inv_key [OF inv b] hit ne have "key_at s b \<noteq> op_key op" by auto
  then show "key_at s' b = key_at s b \<and> key_at s b \<noteq> op_key op"
    by (simp add: ka)
qed

lemma use_new_recent:
  assumes inv: "lru_inv s as" and rc: "lru_recent pre s as"
    and miss: "cache s (op_key op) = None"
    and kf: "keyf (nodes s') = (keyf (nodes s))(fresh s \<mapsto> op_key op)"
    and xs: "xs = as \<or> xs = butlast as"
  shows "lru_recent (pre @ [op]) s' (fresh s # xs)"
proof (rule lru_recent_front)
  show "sorted_wrt (\<lambda>a b. last_use pre (key_at s b) < last_use pre (key_at s a)) xs"
    using rc xs unfolding lru_recent_def by (auto intro: sorted_wrt_butlast)
  have "keyf (nodes s') (fresh s) = Some (op_key op)"
    by (simp add: kf)
  then show "key_at s' (fresh s) = op_key op"
    by (rule keyf_key_at)
  fix b assume "b \<in> set xs"
  with xs have b: "b \<in> set as" by (auto dest: in_set_butlastD)
  with inv have "b \<in> dom (nodes s)" and "fresh s \<notin> dom (nodes s)"
    by (auto simp: lru_inv_def lru_shape_def)
  then have "b \<noteq> fresh s" by auto
  then have "keyf (nodes s') b = keyf (nodes s) b"
    by (simp add: kf)
  then have "key_at s' b = key_at s b"
    by (simp add: key_at_def)
  moreover from lru_inv_key [OF inv b] miss have "key_at s b \<noteq> op_key op" by auto
  ultimately show "key_at s' b = key_at s b \<and> key_at s b \<noteq> op_key op" by simp
qed

lemma lru_step_inv:
  assumes inv: "lru_inv s as" and rc: "lru_recent pre s as"
  shows "\<exists>s' as'. lru_step s op = Some s' \<and> lru_inv s' as' \<and> lru_recent (pre @ [op]) s' as'
     \<and> capacity s' = capacity s"
proof (cases op)
  case (OpPut k v)
  then have key: "op_key op = k" by simp
  show ?thesis
  proof (cases "cache s k")
    case (Some a)
    from Put_existing [OF inv Some, of v] obtain s' where "Put s k v = Some s'"
      and "lru_inv s' (a # remove1 a as)" and "capacity s' = capacity s"
      and kf: "keyf (nodes s') = keyf (nodes s)"
      by blast
    moreover have "lru_recent (pre @ [op]) s' (a # remove1 a as)"
      using inv rc _ kf by (rule use_existing_recent) (simp add: key Some)
    ultimately show ?thesis
      using OpPut by (auto simp: lru_step_def)
  next
    case None
    show ?thesis
    proof (cases "int (length as) = sint (capacity s)")
      case True
      from Put_new_full [OF inv None True, of v] obtain s' where "Put s k v = Some s'"
        and "lru_inv s' (fresh s # butlast as)" and "capacity s' = capacity s"
        and kf: "keyf (nodes s') = (keyf (nodes s))(fresh s \<mapsto> k)"
        by blast
      moreover have "lru_recent (pre @ [op]) s' (fresh s # butlast as)"
        using inv rc by (rule use_new_recent) (simp_all add: key None kf)
      ultimately show ?thesis
        using OpPut by (auto simp: lru_step_def)
    next
      case False
      from Put_new_room [OF inv None False, of v] obtain s' where "Put s k v = Some s'"
        and "lru_inv s' (fresh s # as)" and "capacity s' = capacity s"
        and kf: "keyf (nodes s') = (keyf (nodes s))(fresh s \<mapsto> k)"
        by blast
      moreover have "lru_recent (pre @ [op]) s' (fresh s # as)"
        using inv rc by (rule use_new_recent) (simp_all add: key None kf)
      ultimately show ?thesis
        using OpPut by (auto simp: lru_step_def)
    qed
  qed
next
  case (OpGet k)
  then have key: "op_key op = k" by simp
  from LRU_Get_inv [OF inv, of k] obtain r s' where get: "LRU_Get s k = Some (r, s')"
    and inv': "lru_inv s' (case cache s k of None \<Rightarrow> as | Some a \<Rightarrow> a # remove1 a as)"
    and c': "capacity s' = capacity s" and kf: "keyf (nodes s') = keyf (nodes s)"
    by blast
  have "lru_recent (pre @ [op]) s' (case cache s k of None \<Rightarrow> as | Some a \<Rightarrow> a # remove1 a as)"
  proof (cases "cache s k")
    case None
    with get have "s' = s" by (simp add: LRU_Get_def)
    moreover have "lru_recent (pre @ [op]) s as"
      using rc
    proof (rule lru_recent_same)
      fix b assume "b \<in> set as"
      from lru_inv_key [OF inv this] None show "key_at s b \<noteq> op_key op"
        by (auto simp: key)
    qed
    ultimately show ?thesis using None by simp
  next
    case (Some a)
    have "lru_recent (pre @ [op]) s' (a # remove1 a as)"
      using inv rc _ kf by (rule use_existing_recent) (simp add: key Some)
    then show ?thesis using Some by simp
  qed
  with get inv' c' OpGet show ?thesis
    by (auto simp: lru_step_def)
qed

lemma lru_run_inv:
  "lru_inv s as \<Longrightarrow> lru_recent pre s as \<Longrightarrow>
   \<exists>s' as'. lru_run s ops = Some s' \<and> lru_inv s' as' \<and> lru_recent (pre @ ops) s' as'
     \<and> capacity s' = capacity s"
proof (induction ops arbitrary: s as pre)
  case Nil
  then show ?case by auto
next
  case (Cons op ops)
  from lru_step_inv [OF Cons.prems] obtain s1 as1 where 1: "lru_step s op = Some s1"
    and inv1: "lru_inv s1 as1" and rc1: "lru_recent (pre @ [op]) s1 as1"
    and c1: "capacity s1 = capacity s"
    by blast
  from Cons.IH [OF inv1 rc1] obtain s' as' where "lru_run s1 ops = Some s'"
    and "lru_inv s' as'" and "lru_recent ((pre @ [op]) @ ops) s' as'"
    and "capacity s' = capacity s1"
    by blast
  with 1 c1 show ?case by auto
qed

lemma Constructor_inv: "lru_inv (Constructor c) [] \<and> lru_recent [] (Constructor c) []"
  by (simp add: lru_inv_def lru_shape_def lru_recent_def Constructor_def DefaultCapacity_def)

text \<open>
  C9. Whatever capacity is asked for and whatever operations follow, no operation
  panics, the capacity is the one asked for or the default of 16 when that was not
  positive, so at least 1, and the map never holds more entries than the capacity. In
  such a cache, when the map is full and the key of a \<open>Put\<close> is new, the list has a
  tail whose key is in the map and was used less recently than every other key in the
  map, and the \<open>Put\<close> deletes that key from the map and enters the new key, the map
  staying full.
\<close>

theorem LRU_capacity_bound:
  "\<exists>this. lru_run (Constructor c) ops = Some this
     \<and> capacity this = (if sint c \<le> 0 then DefaultCapacity else c)
     \<and> 1 \<le> sint (capacity this)
     \<and> int (card (dom (cache this))) \<le> sint (capacity this)
     \<and> (\<forall>k v. cache this k = None \<and> int (card (dom (cache this))) = sint (capacity this) \<longrightarrow>
          (\<exists>t tn this'. tail this = Some t \<and> nodes this t = Some tn
             \<and> cache this (node_key tn) = Some t
             \<and> (\<forall>k'. cache this k' \<noteq> None \<and> k' \<noteq> node_key tn \<longrightarrow>
                   last_use ops (node_key tn) < last_use ops k')
             \<and> Put this k v = Some this'
             \<and> cache this' = ((cache this)(node_key tn := None))(k \<mapsto> fresh this)
             \<and> int (card (dom (cache this'))) = sint (capacity this')))"
proof -
  from Constructor_inv [of c] have "lru_inv (Constructor c) []"
    and "lru_recent [] (Constructor c) []"
    by simp_all
  from lru_run_inv [OF this, of ops] obtain s as
    where run: "lru_run (Constructor c) ops = Some s" and inv: "lru_inv s as"
      and rc: "lru_recent ops s as"
      and cap: "capacity s = capacity (Constructor c)"
    by auto
  have card: "card (dom (cache s)) = length as"
    using inv by (rule lru_inv_card)
  have evict: "\<exists>t tn s'. tail s = Some t \<and> nodes s t = Some tn
             \<and> cache s (node_key tn) = Some t
             \<and> (\<forall>k'. cache s k' \<noteq> None \<and> k' \<noteq> node_key tn \<longrightarrow>
                   last_use ops (node_key tn) < last_use ops k')
             \<and> Put s k v = Some s'
             \<and> cache s' = ((cache s)(node_key tn := None))(k \<mapsto> fresh s)
             \<and> int (card (dom (cache s'))) = sint (capacity s')"
    if new: "cache s k = None" and full: "int (card (dom (cache s))) = sint (capacity s)"
    for k v
  proof -
    from full card have "int (length as) = sint (capacity s)" by simp
    from Put_new_full [OF inv new this] obtain s' tn where tl: "tail s = Some (last as)"
      and tn: "nodes s (last as) = Some tn" and ct: "cache s (node_key tn) = Some (last as)"
      and put: "Put s k v = Some s'" and inv': "lru_inv s' (fresh s # butlast as)"
      and c': "capacity s' = capacity s"
      and cs: "cache s' = ((cache s)(node_key tn := None))(k \<mapsto> fresh s)"
      by blast
    from full card cap inv have ne: "as \<noteq> []"
      by (auto simp: lru_inv_def)
    have kt: "key_at s (last as) = node_key tn"
      using tn by (simp add: key_at_def keyf_def)
    have lru: "last_use ops (node_key tn) < last_use ops k'"
      if "cache s k' \<noteq> None" and "k' \<noteq> node_key tn" for k'
    proof -
      from that(1) obtain b where b: "cache s k' = Some b" by auto
      with inv have bin: "b \<in> set as" and kb: "keyf (nodes s) b = Some k'"
        by (simp_all add: lru_inv_def)
      from kb have kb': "key_at s b = k'" by (rule keyf_key_at)
      with that(2) kt have "b \<noteq> last as" by auto
      moreover have "set as = insert (last as) (set (butlast as))"
      proof -
        have "set as = set (butlast as @ [last as])"
          using ne by simp
        also have "\<dots> = insert (last as) (set (butlast as))"
          by simp
        finally show ?thesis .
      qed
      ultimately have bb: "b \<in> set (butlast as)" using bin by auto
      have "sorted_wrt (\<lambda>a b. last_use ops (key_at s b) < last_use ops (key_at s a))
              (butlast as @ [last as])"
        using rc ne by (simp add: lru_recent_def)
      with bb have "last_use ops (key_at s (last as)) < last_use ops (key_at s b)"
        by (simp add: sorted_wrt_append)
      then show ?thesis by (simp add: kt kb')
    qed
    have "int (card (dom (cache s'))) = sint (capacity s')"
    proof -
      from ne have "length (fresh s # butlast as) = length as" by simp
      with lru_inv_card [OF inv'] full card c' show ?thesis by simp
    qed
    with tl tn ct put cs lru show ?thesis by blast
  qed
  have "capacity s = (if sint c \<le> 0 then DefaultCapacity else c)"
    using cap by (simp add: Constructor_def)
  moreover have "1 \<le> sint (capacity s)" and "int (card (dom (cache s))) \<le> sint (capacity s)"
    using inv card by (simp_all add: lru_inv_def)
  ultimately show ?thesis
    using run evict by blast
qed

lemma lru_test_run:
  "lru_run (Constructor 2) [OpPut 1 1, OpPut 2 2, OpGet 1] =
     Some \<lparr>capacity = 2, cache = [1 \<mapsto> 0, 2 \<mapsto> Suc 0], head = Some 0, tail = Some (Suc 0),
           nodes = [0 \<mapsto> \<lparr>node_key = 1, node_value = 1, node_prev = None,
                            node_next = Some (Suc 0)\<rparr>,
                    Suc 0 \<mapsto> \<lparr>node_key = 2, node_value = 2, node_prev = Some 0,
                                node_next = None\<rparr>],
           fresh = Suc (Suc 0)\<rparr>"
  by (simp add: lru_step_def Put_def LRU_Get_def remove_def addToHead_def Constructor_def
        Let_def fun_upd_twist)

theorem LRU_capacity_bound_witness:
  "\<exists>this t tn this'.
     lru_run (Constructor 2) [OpPut 1 1, OpPut 2 2, OpGet 1] = Some this
     \<and> cache this 3 = None \<and> int (card (dom (cache this))) = sint (capacity this)
     \<and> tail this = Some t \<and> nodes this t = Some tn \<and> node_key tn = 2
     \<and> cache this 1 \<noteq> None
     \<and> last_use [OpPut 1 1, OpPut 2 2, OpGet 1] 2 < last_use [OpPut 1 1, OpPut 2 2, OpGet 1] 1
     \<and> Put this 3 3 = Some this'
     \<and> cache this' 2 = None \<and> cache this' 3 = Some (fresh this) \<and> cache this' 1 = cache this 1"
proof -
  let ?ops = "[OpPut 1 1, OpPut 2 2, OpGet 1]"
  let ?S = "\<lparr>capacity = 2, cache = [1 \<mapsto> 0, 2 \<mapsto> Suc 0], head = Some 0, tail = Some (Suc 0),
           nodes = [0 \<mapsto> \<lparr>node_key = 1, node_value = 1, node_prev = None,
                            node_next = Some (Suc 0)\<rparr>,
                    Suc 0 \<mapsto> \<lparr>node_key = 2, node_value = 2, node_prev = Some 0,
                                node_next = None\<rparr>],
           fresh = Suc (Suc 0)\<rparr>"
  have new: "cache ?S 3 = None" by simp
  have full: "int (card (dom (cache ?S))) = sint (capacity ?S)" by simp
  from LRU_capacity_bound [of 2 ?ops]
  have "\<exists>t tn this'. tail ?S = Some t \<and> nodes ?S t = Some tn
          \<and> (\<forall>k'. cache ?S k' \<noteq> None \<and> k' \<noteq> node_key tn \<longrightarrow>
                 last_use ?ops (node_key tn) < last_use ?ops k')
          \<and> Put ?S 3 3 = Some this'
          \<and> cache this' = ((cache ?S)(node_key tn := None))(3 \<mapsto> fresh ?S)"
    unfolding lru_test_run using new full by blast
  then obtain t tn this' where t: "tail ?S = Some t" and tn: "nodes ?S t = Some tn"
    and lru: "\<And>k'. cache ?S k' \<noteq> None \<and> k' \<noteq> node_key tn \<Longrightarrow>
                 last_use ?ops (node_key tn) < last_use ?ops k'"
    and put: "Put ?S 3 3 = Some this'"
    and cs: "cache this' = ((cache ?S)(node_key tn := None))(3 \<mapsto> fresh ?S)"
    by blast
  from t tn have k2: "node_key tn = 2" by auto
  have "last_use ?ops 2 < last_use ?ops 1"
    using lru [of 1] by (simp add: k2)
  with t tn k2 put cs show ?thesis
    unfolding lru_test_run using new full
    by (intro exI [of _ ?S] exI [of _ t] exI [of _ tn] exI [of _ this']) simp
qed

end
